theory Spec2Isabelle
  imports Main "HOL-Library.Word" "HOL-Library.Multiset"
begin

unbundle bit_operations_syntax

section \<open>Data model of the OMAP mailbox driver\<close>

text \<open>
  The driver (\<^verbatim>\<open>arch/arm/plat-omap/mailbox.c\<close>) is embedded by explicit state passing.
  C \<^verbatim>\<open>int\<close> values (counters and return codes) are 32-bit words, a message
  (\<^verbatim>\<open>mbox_msg_t\<close>, a \<^verbatim>\<open>u32\<close>) is a 32-bit word, and a software queue is the
  kernel's byte \<^verbatim>\<open>kfifo\<close>. Pointers to \<^verbatim>\<open>struct omap_mbox\<close> and to
  \<^verbatim>\<open>struct omap_mbox_queue\<close> are addresses (natural numbers); queues live in an explicit
  heap, so that a freed queue and a dangling pointer can be told apart.
\<close>

type_synonym mbox_msg_t = "32 word"
type_synonym cint = "32 word"
type_synonym byte = "8 word"

datatype omap_mbox_irq_t = IRQ_TX | IRQ_RX

datatype omap_mbox_type_t = OMAP_MBOX_TYPE1 | OMAP_MBOX_TYPE2

definition ENOENT :: cint where "ENOENT = 2"
definition ENOMEM :: cint where "ENOMEM = 12"
definition ENODEV :: cint where "ENODEV = 19"
definition EINVAL :: cint where "EINVAL = 22"

subsection \<open>The kernel byte FIFO\<close>

text \<open>
  \<^verbatim>\<open>struct kfifo\<close> is the kernel's bounded byte queue: \<open>kf_size\<close> is its capacity in
  bytes and \<open>kf_data\<close> the bytes it holds, oldest first. \<^verbatim>\<open>kfifo_in\<close> copies as many bytes
  as fit and returns their number; \<^verbatim>\<open>kfifo_out\<close> copies out at most the requested number.
\<close>

record kfifo =
  kf_size :: nat
  kf_data :: "byte list"

definition kfifo_len :: "kfifo \<Rightarrow> nat" where
  "kfifo_len f = length (kf_data f)"

definition kfifo_avail :: "kfifo \<Rightarrow> nat" where
  "kfifo_avail f = kf_size f - kfifo_len f"

definition kfifo_is_empty :: "kfifo \<Rightarrow> bool" where
  "kfifo_is_empty f = (kfifo_len f = 0)"

definition kfifo_in :: "kfifo \<Rightarrow> byte list \<Rightarrow> nat \<times> kfifo" where
  "kfifo_in f buf =
     (let l = min (length buf) (kfifo_avail f)
      in (l, f\<lparr>kf_data := kf_data f @ take l buf\<rparr>))"

definition kfifo_out :: "kfifo \<Rightarrow> nat \<Rightarrow> byte list \<times> kfifo" where
  "kfifo_out f n =
     (let l = min n (kfifo_len f)
      in (take l (kf_data f), f\<lparr>kf_data := drop l (kf_data f)\<rparr>))"

text \<open>
  A message is copied to and from the queue through its memory image
  (\<^verbatim>\<open>(unsigned char *)&msg\<close>), four bytes, least significant first (little-endian ARM).
  \<open>load_msg old bs\<close> is the local \<^verbatim>\<open>msg\<close> after \<^verbatim>\<open>kfifo_out\<close> has copied the bytes
  \<open>bs\<close> over its first bytes: a short read leaves the remaining bytes as they were.
\<close>

definition sizeof_msg :: nat where
  "sizeof_msg = 4"

definition msg_bytes :: "mbox_msg_t \<Rightarrow> byte list" where
  "msg_bytes m = [ucast m, ucast (drop_bit 8 m), ucast (drop_bit 16 m), ucast (drop_bit 24 m)]"

definition bytes_msg :: "byte list \<Rightarrow> mbox_msg_t" where
  "bytes_msg bs = foldr (\<lambda>b acc. ucast b OR push_bit 8 acc) bs 0"

definition load_msg :: "mbox_msg_t \<Rightarrow> byte list \<Rightarrow> mbox_msg_t" where
  "load_msg old bs = bytes_msg (bs @ drop (length bs) (msg_bytes old))"

subsection \<open>Hardware operations, channels, queues and the driver state\<close>

text \<open>
  \<^verbatim>\<open>struct omap_mbox_ops\<close>: the hardware operations of a channel, as functions on an
  abstract hardware state \<open>'h\<close>. Each operation is the callback already applied to its
  \<^verbatim>\<open>mbox\<close> argument. A callback the driver tests for \<^verbatim>\<open>NULL\<close> is an \<open>option\<close>.
  Status reads return the next hardware state too, so that the hardware may change between
  two polls.
\<close>

record 'h omap_mbox_ops =
  ops_type :: omap_mbox_type_t
  startup :: "('h \<Rightarrow> cint \<times> 'h) option"
  shutdown :: "('h \<Rightarrow> 'h) option"
  fifo_read :: "'h \<Rightarrow> mbox_msg_t \<times> 'h"
  fifo_write :: "mbox_msg_t \<Rightarrow> 'h \<Rightarrow> 'h"
  fifo_empty :: "'h \<Rightarrow> bool \<times> 'h"
  fifo_full :: "'h \<Rightarrow> bool \<times> 'h"
  enable_irq :: "omap_mbox_irq_t \<Rightarrow> 'h \<Rightarrow> 'h"
  disable_irq :: "omap_mbox_irq_t \<Rightarrow> 'h \<Rightarrow> 'h"
  ack_irq :: "(omap_mbox_irq_t \<Rightarrow> 'h \<Rightarrow> 'h) option"
  is_irq :: "omap_mbox_irq_t \<Rightarrow> 'h \<Rightarrow> bool \<times> 'h"
  save_ctx :: "('h \<Rightarrow> 'h) option"
  restore_ctx :: "('h \<Rightarrow> 'h) option"

text \<open>
  \<^verbatim>\<open>struct omap_mbox\<close>. \<open>txq\<close> and \<open>rxq\<close> are pointers into the queue heap
  (\<open>None\<close> is \<^verbatim>\<open>NULL\<close>); \<open>notifier\<close> is the notifier chain, the registered notifier blocks
  in chain order.
\<close>

record 'h omap_mbox =
  name :: string
  irq :: nat
  txq :: "nat option"
  rxq :: "nat option"
  ops :: "'h omap_mbox_ops"
  use_count :: cint
  notifier :: "nat list"

text \<open>\<^verbatim>\<open>struct omap_mbox_queue\<close>; the lock, work item and tasklet appear as events only.\<close>

record omap_mbox_queue =
  fifo :: kfifo
  q_mbox :: "nat option"
  full :: bool

text \<open>
  What the driver does to its environment, in program order: every hardware callback it
  invokes (with the value returned), every lock operation, every queue copy and every
  kernel service it calls.
\<close>

datatype event =
    EvStartup nat cint
  | EvShutdown nat
  | EvFifoRead nat mbox_msg_t
  | EvFifoWrite nat mbox_msg_t
  | EvFifoEmpty nat bool
  | EvFifoFull nat bool
  | EvEnableIrq nat omap_mbox_irq_t
  | EvDisableIrq nat omap_mbox_irq_t
  | EvAckIrq nat omap_mbox_irq_t
  | EvIsIrq nat omap_mbox_irq_t bool
  | EvSaveCtx nat
  | EvRestoreCtx nat
  | EvLock nat
  | EvUnlock nat
  | EvKfifoIn nat nat
  | EvKfifoOut nat nat
  | EvNotify nat nat nat mbox_msg_t
  | EvTaskletSchedule nat
  | EvTaskletKill nat
  | EvScheduleWork nat
  | EvFlushWork nat
  | EvRequestIrq nat cint
  | EvFreeIrq nat
  | EvPmGet
  | EvPmPut
  | EvQos int
  | EvUdelay nat
  | EvDeviceCreate nat cint
  | EvDeviceUnregister nat
  | EvWarn
  | EvErr

text \<open>
  The driver's globals (\<^verbatim>\<open>mboxes\<close>, \<^verbatim>\<open>mbox_configured\<close>), the memory holding the
  \<^verbatim>\<open>omap_mbox\<close> structures, the queue heap with its allocation pointer, the runtime-PM
  usage count of the parent device, the hardware and the event trace.
  \<open>mboxes\<close> is \<open>None\<close> for \<^verbatim>\<open>NULL\<close>, otherwise the registered array up to its terminator.
\<close>

record 'h mbox_state =
  mboxes :: "nat list option"
  mbox_configured :: cint
  mem :: "nat \<Rightarrow> 'h omap_mbox"
  queues :: "nat \<rightharpoonup> omap_mbox_queue"
  brk :: nat
  pm_usage :: int
  hw :: 'h
  trace :: "event list"

definition emit :: "event \<Rightarrow> 'h mbox_state \<Rightarrow> 'h mbox_state" where
  "emit e s = s\<lparr>trace := trace s @ [e]\<rparr>"

definition null_queue :: omap_mbox_queue where
  "null_queue = \<lparr>fifo = \<lparr>kf_size = 0, kf_data = []\<rparr>, q_mbox = None, full = False\<rparr>"

definition queue_at :: "'h mbox_state \<Rightarrow> nat \<Rightarrow> omap_mbox_queue" where
  "queue_at s qa = (case queues s qa of Some q \<Rightarrow> q | None \<Rightarrow> null_queue)"

definition queue_upd ::
  "nat \<Rightarrow> (omap_mbox_queue \<Rightarrow> omap_mbox_queue) \<Rightarrow> 'h mbox_state \<Rightarrow> 'h mbox_state" where
  "queue_upd qa f s = s\<lparr>queues := (queues s)(qa \<mapsto> f (queue_at s qa))\<rparr>"

definition mbox_upd ::
  "nat \<Rightarrow> ('h omap_mbox \<Rightarrow> 'h omap_mbox) \<Rightarrow> 'h mbox_state \<Rightarrow> 'h mbox_state" where
  "mbox_upd m f s = s\<lparr>mem := (mem s)(m := f (mem s m))\<rparr>"

section \<open>Hardware access and kernel services\<close>

text \<open>
  The inline helpers of the driver: each invokes the channel's callback on the hardware
  and records the call. \<^verbatim>\<open>ack_mbox_irq\<close> tests its callback for \<^verbatim>\<open>NULL\<close>.
\<close>

definition mbox_fifo_read :: "nat \<Rightarrow> 'h mbox_state \<Rightarrow> mbox_msg_t \<times> 'h mbox_state" where
  "mbox_fifo_read m s =
     (case fifo_read (ops (mem s m)) (hw s) of
        (msg, h) \<Rightarrow> (msg, emit (EvFifoRead m msg) (s\<lparr>hw := h\<rparr>)))"

definition mbox_fifo_write :: "nat \<Rightarrow> mbox_msg_t \<Rightarrow> 'h mbox_state \<Rightarrow> 'h mbox_state" where
  "mbox_fifo_write m msg s =
     emit (EvFifoWrite m msg) (s\<lparr>hw := fifo_write (ops (mem s m)) msg (hw s)\<rparr>)"

definition mbox_fifo_empty :: "nat \<Rightarrow> 'h mbox_state \<Rightarrow> bool \<times> 'h mbox_state" where
  "mbox_fifo_empty m s =
     (case fifo_empty (ops (mem s m)) (hw s) of
        (r, h) \<Rightarrow> (r, emit (EvFifoEmpty m r) (s\<lparr>hw := h\<rparr>)))"

definition mbox_fifo_full :: "nat \<Rightarrow> 'h mbox_state \<Rightarrow> bool \<times> 'h mbox_state" where
  "mbox_fifo_full m s =
     (case fifo_full (ops (mem s m)) (hw s) of
        (r, h) \<Rightarrow> (r, emit (EvFifoFull m r) (s\<lparr>hw := h\<rparr>)))"

definition ack_mbox_irq :: "nat \<Rightarrow> omap_mbox_irq_t \<Rightarrow> 'h mbox_state \<Rightarrow> 'h mbox_state" where
  "ack_mbox_irq m i s =
     (case ack_irq (ops (mem s m)) of
        None \<Rightarrow> s
      | Some f \<Rightarrow> emit (EvAckIrq m i) (s\<lparr>hw := f i (hw s)\<rparr>))"

definition is_mbox_irq :: "nat \<Rightarrow> omap_mbox_irq_t \<Rightarrow> 'h mbox_state \<Rightarrow> bool \<times> 'h mbox_state" where
  "is_mbox_irq m i s =
     (case is_irq (ops (mem s m)) i (hw s) of
        (r, h) \<Rightarrow> (r, emit (EvIsIrq m i r) (s\<lparr>hw := h\<rparr>)))"

text \<open>
  Modelled from the spec: \<^verbatim>\<open>omap_mbox_enable_irq\<close> and \<^verbatim>\<open>omap_mbox_disable_irq\<close> are
  inline helpers of the header \<^verbatim>\<open>plat/mailbox.h\<close>, which is not part of the sources at
  hand. The spec lists \<^verbatim>\<open>enable_irq(kind)\<close> and \<^verbatim>\<open>disable_irq(kind)\<close> among the hardware
  operations of a channel; the helpers invoke them.
\<close>

definition omap_mbox_enable_irq :: "nat \<Rightarrow> omap_mbox_irq_t \<Rightarrow> 'h mbox_state \<Rightarrow> 'h mbox_state" where
  "omap_mbox_enable_irq m i s =
     emit (EvEnableIrq m i) (s\<lparr>hw := enable_irq (ops (mem s m)) i (hw s)\<rparr>)"

definition omap_mbox_disable_irq :: "nat \<Rightarrow> omap_mbox_irq_t \<Rightarrow> 'h mbox_state \<Rightarrow> 'h mbox_state" where
  "omap_mbox_disable_irq m i s =
     emit (EvDisableIrq m i) (s\<lparr>hw := disable_irq (ops (mem s m)) i (hw s)\<rparr>)"

text \<open>
  Kernel services. Locks, tasklets, work items, delays and warnings leave an event; the
  queue copies act on the queue at the given address of the heap.
\<close>

definition spin_lock :: "nat \<Rightarrow> 'h mbox_state \<Rightarrow> 'h mbox_state" where
  "spin_lock qa s = emit (EvLock qa) s"

definition spin_unlock :: "nat \<Rightarrow> 'h mbox_state \<Rightarrow> 'h mbox_state" where
  "spin_unlock qa s = emit (EvUnlock qa) s"

definition tasklet_schedule :: "nat \<Rightarrow> 'h mbox_state \<Rightarrow> 'h mbox_state" where
  "tasklet_schedule qa s = emit (EvTaskletSchedule qa) s"

definition schedule_work :: "nat \<Rightarrow> 'h mbox_state \<Rightarrow> 'h mbox_state" where
  "schedule_work qa s = emit (EvScheduleWork qa) s"

definition udelay :: "nat \<Rightarrow> 'h mbox_state \<Rightarrow> 'h mbox_state" where
  "udelay n s = emit (EvUdelay n) s"

definition WARN_ON :: "bool \<Rightarrow> 'h mbox_state \<Rightarrow> 'h mbox_state" where
  "WARN_ON c s = (if c then emit EvWarn s else s)"

definition q_kfifo_in :: "nat \<Rightarrow> byte list \<Rightarrow> 'h mbox_state \<Rightarrow> nat \<times> 'h mbox_state" where
  "q_kfifo_in qa buf s =
     (case kfifo_in (fifo (queue_at s qa)) buf of
        (l, f) \<Rightarrow> (l, emit (EvKfifoIn qa l) (queue_upd qa (\<lambda>q. q\<lparr>fifo := f\<rparr>) s)))"

definition q_kfifo_out :: "nat \<Rightarrow> nat \<Rightarrow> 'h mbox_state \<Rightarrow> byte list \<times> 'h mbox_state" where
  "q_kfifo_out qa n s =
     (case kfifo_out (fifo (queue_at s qa)) n of
        (bs, f) \<Rightarrow> (bs, emit (EvKfifoOut qa (length bs)) (queue_upd qa (\<lambda>q. q\<lparr>fifo := f\<rparr>) s)))"

section \<open>Transmit path\<close>

text \<open>
  \<^verbatim>\<open>__mbox_poll_for_space\<close>: the loop with its counter \<^verbatim>\<open>i\<close> (a C \<^verbatim>\<open>int\<close>, started at
  1000), then the function. The result is 0 when the hardware FIFO has space and -1 when
  the poll gives up.
\<close>

lemma unat_pred_less: "(w :: 'a::len word) \<noteq> 0 \<Longrightarrow> unat (w - 1) < unat w"
  by (simp add: unat_minus_one unat_gt_0)

function poll_loop :: "nat \<Rightarrow> cint \<Rightarrow> 'h mbox_state \<Rightarrow> cint \<times> 'h mbox_state" where
  "poll_loop m i s =
     (case mbox_fifo_full m s of
        (fl, s1) \<Rightarrow>
          if fl then
            if ops_type (ops (mem s1 m)) = OMAP_MBOX_TYPE2 then (- 1, s1)
            else if i - 1 = 0 then (- 1, s1)
            else poll_loop m (i - 1) (udelay 1 s1)
          else (0, s1))"
  by pat_completeness auto
termination
proof (relation "measure (\<lambda>(m, i, s). unat (i - 1))")
  fix m :: nat and i :: cint and s :: "'h mbox_state" and x :: "bool \<times> 'h mbox_state" and fl s1
  assume "i - 1 \<noteq> 0"
  then have "unat (i - 1 - 1) < unat (i - 1)"
    by (rule unat_pred_less)
  then show "((m, i - 1, udelay 1 s1), m, i, s) \<in> measure (\<lambda>(m, i, s). unat (i - 1))"
    by simp
qed simp

declare poll_loop.simps [simp del]

definition mbox_poll_for_space :: "nat \<Rightarrow> 'h mbox_state \<Rightarrow> cint \<times> 'h mbox_state" where
  "mbox_poll_for_space m s = poll_loop m 1000 s"

text \<open>
  \<^verbatim>\<open>omap_mbox_msg_send\<close>. Dereferencing a \<^verbatim>\<open>NULL\<close> or freed \<^verbatim>\<open>mbox->txq\<close> is a fault
  (\<open>None\<close>). The poll is evaluated only when the queue is empty (\<^verbatim>\<open>&&\<close>).
\<close>

definition omap_mbox_msg_send ::
  "nat \<Rightarrow> mbox_msg_t \<Rightarrow> 'h mbox_state \<Rightarrow> (cint \<times> 'h mbox_state) option" where
  "omap_mbox_msg_send m msg s =
     (case txq (mem s m) of
        None \<Rightarrow> None
      | Some mq \<Rightarrow>
          (case queues s mq of
             None \<Rightarrow> None
           | Some _ \<Rightarrow>
               Some
                (let s1 = spin_lock mq s in
                 if kfifo_avail (fifo (queue_at s1 mq)) < sizeof_msg
                 then (- ENOMEM, spin_unlock mq s1)
                 else
                   (case (if kfifo_is_empty (fifo (queue_at s1 mq))
                          then (case mbox_poll_for_space m s1 of (r, s2) \<Rightarrow> (r = 0, s2))
                          else (False, s1)) of
                      (direct, s2) \<Rightarrow>
                        if direct then (0, spin_unlock mq (mbox_fifo_write m msg s2))
                        else
                          (case q_kfifo_in mq (msg_bytes msg) s2 of
                             (len, s3) \<Rightarrow>
                               (0, spin_unlock mq
                                     (tasklet_schedule mq
                                        (WARN_ON (len \<noteq> sizeof_msg) s3))))))))"

text \<open>
  Two states agree on everything but the hardware and the trace. The poll touches nothing
  else.
\<close>

definition same_sw :: "'h mbox_state \<Rightarrow> 'h mbox_state \<Rightarrow> bool" where
  "same_sw s s' \<longleftrightarrow>
     mboxes s' = mboxes s \<and> mbox_configured s' = mbox_configured s \<and> mem s' = mem s \<and>
     queues s' = queues s \<and> brk s' = brk s \<and> pm_usage s' = pm_usage s"

lemma poll_loop_frame: "poll_loop m i s = (r, s') \<Longrightarrow> same_sw s s'"
proof (induction m i s arbitrary: r s' rule: poll_loop.induct)
  case (1 m i s)
  obtain fl s1 where f: "mbox_fifo_full m s = (fl, s1)"
    by (cases "mbox_fifo_full m s")
  then have s1: "same_sw s s1"
    by (auto simp: mbox_fifo_full_def emit_def same_sw_def split: prod.splits)
  show ?case
  proof (cases "fl \<and> ops_type (ops (mem s1 m)) \<noteq> OMAP_MBOX_TYPE2 \<and> i - 1 \<noteq> 0")
    case True
    then have rec: "poll_loop m (i - 1) (udelay 1 s1) = (r, s')"
      using "1.prems" f by (subst (asm) poll_loop.simps) simp
    have "same_sw (udelay 1 s1) s'"
      using "1.IH" [OF f [symmetric] _ _ _ rec] True by simp
    then show ?thesis
      using s1 by (simp add: udelay_def emit_def same_sw_def)
  next
    case False
    then have "s' = s1"
      using "1.prems" f by (subst (asm) poll_loop.simps) (auto split: if_splits)
    then show ?thesis using s1 by simp
  qed
qed

lemma poll_for_space_frame: "mbox_poll_for_space m s = (r, s') \<Longrightarrow> same_sw s s'"
  unfolding mbox_poll_for_space_def by (rule poll_loop_frame)

lemma queue_at_same_sw: "same_sw s s' \<Longrightarrow> queue_at s' qa = queue_at s qa"
  by (simp add: same_sw_def queue_at_def)

lemma q_kfifo_out_len:
  "q_kfifo_out qa n s = (bs, s') \<Longrightarrow>
     kfifo_len (fifo (queue_at s' qa)) = kfifo_len (fifo (queue_at s qa)) - n"
  by (auto simp: q_kfifo_out_def kfifo_out_def kfifo_len_def queue_at_def queue_upd_def emit_def
      Let_def)

lemma q_kfifo_in_avail:
  "q_kfifo_in qa buf s = (l, s') \<Longrightarrow>
     kfifo_avail (fifo (queue_at s' qa)) = kfifo_avail (fifo (queue_at s qa)) - length buf"
  by (auto simp: q_kfifo_in_def kfifo_in_def kfifo_avail_def kfifo_len_def queue_at_def
      queue_upd_def emit_def Let_def)

text \<open>
  \<^verbatim>\<open>mbox_tx_tasklet\<close>: the loop, then the tasklet. \<open>msg\<close> is the local variable of that
  name; it is uninitialised on entry, so its first content \<open>msg0\<close> is an argument. A read
  of fewer than four bytes warns and leaves the remaining bytes of \<open>msg\<close> as they were.
\<close>

function tx_loop :: "nat \<Rightarrow> nat \<Rightarrow> mbox_msg_t \<Rightarrow> 'h mbox_state \<Rightarrow> 'h mbox_state" where
  "tx_loop m mq msg s =
     (if kfifo_len (fifo (queue_at s mq)) \<noteq> 0 then
        (case mbox_poll_for_space m s of
           (r, s1) \<Rightarrow>
             if r \<noteq> 0 then omap_mbox_enable_irq m IRQ_TX s1
             else
               (case q_kfifo_out mq sizeof_msg s1 of
                  (bs, s2) \<Rightarrow>
                    tx_loop m mq (load_msg msg bs)
                      (mbox_fifo_write m (load_msg msg bs)
                         (WARN_ON (length bs \<noteq> sizeof_msg) s2))))
      else s)"
  by pat_completeness auto
termination
proof (relation "measure (\<lambda>(m, mq, msg, s). kfifo_len (fifo (queue_at s mq)))")
  fix m mq :: nat and msg :: mbox_msg_t and s s1 s2 :: "'h mbox_state"
    and x :: "cint \<times> 'h mbox_state" and r bs
    and y :: "byte list \<times> 'h mbox_state"
  assume ne: "kfifo_len (fifo (queue_at s mq)) \<noteq> 0"
    and p: "(r, s1) = mbox_poll_for_space m s"
    and o: "(bs, s2) = q_kfifo_out mq sizeof_msg s1"
  have "queue_at s1 mq = queue_at s mq"
    using p poll_for_space_frame [of m s r s1] by (simp add: queue_at_same_sw)
  moreover have "kfifo_len (fifo (queue_at s2 mq)) = kfifo_len (fifo (queue_at s1 mq)) - sizeof_msg"
    using o q_kfifo_out_len [of mq sizeof_msg s1 bs s2] by simp
  ultimately have "kfifo_len (fifo (queue_at s2 mq)) < kfifo_len (fifo (queue_at s mq))"
    using ne by (simp add: sizeof_msg_def)
  then show "((m, mq, load_msg msg bs,
        mbox_fifo_write m (load_msg msg bs) (WARN_ON (length bs \<noteq> sizeof_msg) s2)), m, mq, msg, s)
      \<in> measure (\<lambda>(m, mq, msg, s). kfifo_len (fifo (queue_at s mq)))"
    by (simp add: mbox_fifo_write_def WARN_ON_def emit_def queue_at_def)
qed simp

declare tx_loop.simps [simp del]

definition mbox_tx_tasklet :: "nat \<Rightarrow> mbox_msg_t \<Rightarrow> 'h mbox_state \<Rightarrow> 'h mbox_state option" where
  "mbox_tx_tasklet m msg0 s =
     (case txq (mem s m) of
        None \<Rightarrow> None
      | Some mq \<Rightarrow>
          (case queues s mq of
             None \<Rightarrow> None
           | Some _ \<Rightarrow> Some (tx_loop m mq msg0 s)))"

section \<open>Receive path\<close>

text \<open>
  The notifier chain is a kernel facility: \<^verbatim>\<open>blocking_notifier_call_chain\<close> calls the
  registered blocks in chain order with the value and the data it is given, registration
  appends a block and unregistration removes it. The callbacks are opaque: a call leaves an
  event.
\<close>

definition blocking_notifier_call_chain ::
  "nat \<Rightarrow> nat \<Rightarrow> mbox_msg_t \<Rightarrow> 'h mbox_state \<Rightarrow> 'h mbox_state" where
  "blocking_notifier_call_chain m val msg s =
     s\<lparr>trace := trace s @ map (\<lambda>nb. EvNotify m nb val msg) (notifier (mem s m))\<rparr>"

definition blocking_notifier_chain_register :: "nat \<Rightarrow> nat \<Rightarrow> 'h mbox_state \<Rightarrow> 'h mbox_state" where
  "blocking_notifier_chain_register m nb s = mbox_upd m (\<lambda>x. x\<lparr>notifier := notifier x @ [nb]\<rparr>) s"

definition blocking_notifier_chain_unregister :: "nat \<Rightarrow> nat \<Rightarrow> 'h mbox_state \<Rightarrow> 'h mbox_state" where
  "blocking_notifier_chain_unregister m nb s =
     mbox_upd m (\<lambda>x. x\<lparr>notifier := remove1 nb (notifier x)\<rparr>) s"

text \<open>
  \<^verbatim>\<open>mbox_rx_work\<close>: the loop for the queue at \<open>mq\<close> whose \<^verbatim>\<open>mq->mbox\<close> is \<open>m\<close>, then the
  work function, which faults on a queue that is not live and on a \<^verbatim>\<open>NULL\<close>
  \<^verbatim>\<open>mq->mbox\<close> once there is a message to dispatch.
\<close>

function rx_work_loop :: "nat \<Rightarrow> nat \<Rightarrow> 'h mbox_state \<Rightarrow> 'h mbox_state" where
  "rx_work_loop m mq s =
     (if sizeof_msg \<le> kfifo_len (fifo (queue_at s mq)) then
        (case q_kfifo_out mq sizeof_msg s of
           (bs, s1) \<Rightarrow>
             (let s2 = WARN_ON (length bs \<noteq> sizeof_msg) s1;
                  s3 = blocking_notifier_call_chain m (length bs) (bytes_msg bs) s2;
                  s4 = spin_lock mq s3;
                  s5 = (if full (queue_at s4 mq)
                        then omap_mbox_enable_irq m IRQ_RX
                               (queue_upd mq (\<lambda>q. q\<lparr>full := False\<rparr>) s4)
                        else s4)
              in rx_work_loop m mq (spin_unlock mq s5)))
      else s)"
  by pat_completeness auto
termination
proof (relation "measure (\<lambda>(m, mq, s). kfifo_len (fifo (queue_at s mq)))")
  fix m mq :: nat and s s1 s2 s3 s4 s5 :: "'h mbox_state"
    and x :: "byte list \<times> 'h mbox_state" and bs
  assume ge: "sizeof_msg \<le> kfifo_len (fifo (queue_at s mq))"
    and o: "(bs, s1) = q_kfifo_out mq sizeof_msg s"
    and s2: "s2 = WARN_ON (length bs \<noteq> sizeof_msg) s1"
    and s3: "s3 = blocking_notifier_call_chain m (length bs) (bytes_msg bs) s2"
    and s4: "s4 = spin_lock mq s3"
    and s5: "s5 = (if full (queue_at s4 mq)
                   then omap_mbox_enable_irq m IRQ_RX (queue_upd mq (\<lambda>q. q\<lparr>full := False\<rparr>) s4)
                   else s4)"
  have "kfifo_len (fifo (queue_at s1 mq)) = kfifo_len (fifo (queue_at s mq)) - sizeof_msg"
    using o q_kfifo_out_len [of mq sizeof_msg s bs s1] by simp
  moreover have "fifo (queue_at (spin_unlock mq s5) mq) = fifo (queue_at s1 mq)"
    unfolding s5 s4 s3 s2
    by (simp add: spin_unlock_def spin_lock_def omap_mbox_enable_irq_def queue_upd_def
        blocking_notifier_call_chain_def WARN_ON_def emit_def queue_at_def)
  ultimately show "((m, mq, spin_unlock mq s5), m, mq, s)
      \<in> measure (\<lambda>(m, mq, s). kfifo_len (fifo (queue_at s mq)))"
    using ge by (simp add: sizeof_msg_def)
qed simp

declare rx_work_loop.simps [simp del]

definition mbox_rx_work :: "nat \<Rightarrow> 'h mbox_state \<Rightarrow> 'h mbox_state option" where
  "mbox_rx_work mq s =
     (case queues s mq of
        None \<Rightarrow> None
      | Some q \<Rightarrow>
          (case q_mbox q of
             None \<Rightarrow> (if sizeof_msg \<le> kfifo_len (fifo q) then None else Some s)
           | Some m \<Rightarrow> Some (rx_work_loop m mq s)))"

section \<open>Interrupt handlers\<close>

definition mbox_tx_interrupt :: "nat \<Rightarrow> 'h mbox_state \<Rightarrow> 'h mbox_state option" where
  "mbox_tx_interrupt m s =
     (let s1 = ack_mbox_irq m IRQ_TX (omap_mbox_disable_irq m IRQ_TX s)
      in case txq (mem s1 m) of
           None \<Rightarrow> None
         | Some mq \<Rightarrow>
             (case queues s1 mq of
                None \<Rightarrow> None
              | Some _ \<Rightarrow> Some (tasklet_schedule mq s1)))"

text \<open>
  \<^verbatim>\<open>__mbox_rx_interrupt\<close>: the drain loop, then the handler. The loop returns \<open>True\<close>
  when it is left by \<^verbatim>\<open>goto nomem\<close>, which skips the acknowledgement.
\<close>

function rx_irq_loop :: "nat \<Rightarrow> nat \<Rightarrow> 'h mbox_state \<Rightarrow> bool \<times> 'h mbox_state" where
  "rx_irq_loop m mq s =
     (case mbox_fifo_empty m s of
        (e, s1) \<Rightarrow>
          if \<not> e then
            if kfifo_avail (fifo (queue_at s1 mq)) < sizeof_msg
            then (True, queue_upd mq (\<lambda>q. q\<lparr>full := True\<rparr>) (omap_mbox_disable_irq m IRQ_RX s1))
            else
              (case mbox_fifo_read m s1 of
                 (msg, s2) \<Rightarrow>
                   (case q_kfifo_in mq (msg_bytes msg) s2 of
                      (len, s3) \<Rightarrow>
                        (let s4 = WARN_ON (len \<noteq> sizeof_msg) s3
                         in if ops_type (ops (mem s4 m)) = OMAP_MBOX_TYPE1 then (False, s4)
                            else rx_irq_loop m mq s4)))
          else (False, s1))"
  by pat_completeness auto
termination
proof (relation "measure (\<lambda>(m, mq, s). kfifo_avail (fifo (queue_at s mq)))")
  fix m mq :: nat and s s1 s2 s3 s4 :: "'h mbox_state"
    and x :: "bool \<times> 'h mbox_state" and e
    and y :: "mbox_msg_t \<times> 'h mbox_state" and msg
    and z :: "nat \<times> 'h mbox_state" and len
  assume e: "(e, s1) = mbox_fifo_empty m s"
    and av: "\<not> kfifo_avail (fifo (queue_at s1 mq)) < sizeof_msg"
    and r: "(msg, s2) = mbox_fifo_read m s1"
    and i: "(len, s3) = q_kfifo_in mq (msg_bytes msg) s2"
    and s4: "s4 = WARN_ON (len \<noteq> sizeof_msg) s3"
  have "queue_at s1 mq = queue_at s mq"
    using e by (auto simp: mbox_fifo_empty_def emit_def queue_at_def split: prod.splits)
  moreover have "queue_at s2 mq = queue_at s1 mq"
    using r by (auto simp: mbox_fifo_read_def emit_def queue_at_def split: prod.splits)
  moreover have "kfifo_avail (fifo (queue_at s3 mq))
      = kfifo_avail (fifo (queue_at s2 mq)) - length (msg_bytes msg)"
    using i q_kfifo_in_avail [of mq "msg_bytes msg" s2 len s3] by simp
  moreover have "queue_at s4 mq = queue_at s3 mq"
    unfolding s4 by (simp add: WARN_ON_def emit_def queue_at_def)
  ultimately show "((m, mq, s4), m, mq, s)
      \<in> measure (\<lambda>(m, mq, s). kfifo_avail (fifo (queue_at s mq)))"
    using av by (simp add: sizeof_msg_def msg_bytes_def)
qed simp

declare rx_irq_loop.simps [simp del]

definition mbox_rx_interrupt :: "nat \<Rightarrow> 'h mbox_state \<Rightarrow> 'h mbox_state option" where
  "mbox_rx_interrupt m s =
     (case rxq (mem s m) of
        None \<Rightarrow> None
      | Some mq \<Rightarrow>
          (case queues s mq of
             None \<Rightarrow> None
           | Some _ \<Rightarrow>
               Some
                (case rx_irq_loop m mq s of
                   (nomem, s1) \<Rightarrow>
                     schedule_work mq (if nomem then s1 else ack_mbox_irq m IRQ_RX s1))))"

text \<open>\<^verbatim>\<open>mbox_interrupt\<close>; its result \<^verbatim>\<open>IRQ_HANDLED\<close> is constant and left out.\<close>

definition mbox_interrupt :: "nat \<Rightarrow> 'h mbox_state \<Rightarrow> 'h mbox_state option" where
  "mbox_interrupt m s =
     (case is_mbox_irq m IRQ_TX s of
        (tx, s1) \<Rightarrow>
          (case (if tx then mbox_tx_interrupt m s1 else Some s1) of
             None \<Rightarrow> None
           | Some s2 \<Rightarrow>
               (case is_mbox_irq m IRQ_RX s2 of
                  (rx, s3) \<Rightarrow> if rx then mbox_rx_interrupt m s3 else Some s3)))"

section \<open>Channel lifecycle\<close>

text \<open>
  Allocation is decided by the environment: \<open>kzalloc_ok\<close> tells whether \<^verbatim>\<open>kzalloc\<close>
  succeeds, and \<open>kfifo_alloc_res\<close> is the capacity in bytes of the buffer that
  \<^verbatim>\<open>kfifo_alloc\<close> grants for the request \<^verbatim>\<open>mbox_kfifo_size\<close>, or \<open>None\<close> when it fails.
  A new queue is zeroed and gets the next address of the heap.
\<close>

record alloc_env =
  kzalloc_ok :: bool
  kfifo_alloc_res :: "nat option"

definition mbox_queue_alloc :: "alloc_env \<Rightarrow> 'h mbox_state \<Rightarrow> nat option \<times> 'h mbox_state" where
  "mbox_queue_alloc e s =
     (if \<not> kzalloc_ok e then (None, s)
      else
        (case kfifo_alloc_res e of
           None \<Rightarrow> (None, s)
         | Some n \<Rightarrow>
             (Some (brk s),
              s\<lparr>queues := (queues s)(brk s \<mapsto>
                    \<lparr>fifo = \<lparr>kf_size = n, kf_data = []\<rparr>, q_mbox = None, full = False\<rparr>),
                brk := Suc (brk s)\<rparr>)))"

text \<open>
  \<^verbatim>\<open>mbox_queue_free\<close> releases the queue a pointer refers to. Its callers pass pointers to
  live queues; nothing is released through \<^verbatim>\<open>NULL\<close>.
\<close>

definition mbox_queue_free :: "nat option \<Rightarrow> 'h mbox_state \<Rightarrow> 'h mbox_state" where
  "mbox_queue_free p s = (case p of None \<Rightarrow> s | Some a \<Rightarrow> s\<lparr>queues := (queues s)(a := None)\<rparr>)"

text \<open>
  \<^verbatim>\<open>omap_mbox_enable\<close> and \<^verbatim>\<open>omap_mbox_disable\<close> take and release a runtime-PM reference
  on the parent device; the suspend and resume callbacks the PM core may run in turn are
  separate entry points below.
\<close>

definition omap_mbox_enable :: "nat \<Rightarrow> 'h mbox_state \<Rightarrow> 'h mbox_state" where
  "omap_mbox_enable m s = emit EvPmGet (s\<lparr>pm_usage := pm_usage s + 1\<rparr>)"

definition omap_mbox_disable :: "nat \<Rightarrow> 'h mbox_state \<Rightarrow> 'h mbox_state" where
  "omap_mbox_disable m s = emit EvPmPut (s\<lparr>pm_usage := pm_usage s - 1\<rparr>)"

text \<open>
  The environment of one open: the two queue allocations and the result of
  \<^verbatim>\<open>request_irq\<close>.
\<close>

record open_env =
  txq_env :: alloc_env
  rxq_env :: alloc_env
  request_irq_ret :: cint

text \<open>The exit labels of \<^verbatim>\<open>omap_mbox_startup\<close>, innermost last; each falls through to the next.\<close>

definition fail_startup :: "nat \<Rightarrow> cint \<Rightarrow> 'h mbox_state \<Rightarrow> cint \<times> 'h mbox_state" where
  "fail_startup m ret s = (ret, omap_mbox_disable m s)"

definition fail_alloc_txq :: "nat \<Rightarrow> cint \<Rightarrow> 'h mbox_state \<Rightarrow> cint \<times> 'h mbox_state" where
  "fail_alloc_txq m ret s =
     (let s1 = (case shutdown (ops (mem s m)) of
                  None \<Rightarrow> s
                | Some f \<Rightarrow> emit (EvShutdown m) (s\<lparr>hw := f (hw s)\<rparr>))
      in fail_startup m ret (mbox_upd m (\<lambda>x. x\<lparr>use_count := use_count x - 1\<rparr>) s1))"

definition fail_alloc_rxq :: "nat \<Rightarrow> cint \<Rightarrow> 'h mbox_state \<Rightarrow> cint \<times> 'h mbox_state" where
  "fail_alloc_rxq m ret s = fail_alloc_txq m ret (mbox_queue_free (txq (mem s m)) s)"

definition fail_request_irq :: "nat \<Rightarrow> cint \<Rightarrow> 'h mbox_state \<Rightarrow> cint \<times> 'h mbox_state" where
  "fail_request_irq m ret s = fail_alloc_rxq m ret (mbox_queue_free (rxq (mem s m)) s)"

text \<open>
  The second half of \<^verbatim>\<open>omap_mbox_startup\<close>, from \<^verbatim>\<open>if (!mbox->use_count++)\<close> on.
\<close>

definition startup_queues :: "nat \<Rightarrow> open_env \<Rightarrow> 'h mbox_state \<Rightarrow> cint \<times> 'h mbox_state" where
  "startup_queues m env s =
     (let u = use_count (mem s m);
          s0 = mbox_upd m (\<lambda>x. x\<lparr>use_count := u + 1\<rparr>) s
      in if u = 0 then
           (case mbox_queue_alloc (txq_env env) s0 of
              (None, s1) \<Rightarrow> fail_alloc_txq m (- ENOMEM) s1
            | (Some tq, s1) \<Rightarrow>
                (case mbox_queue_alloc (rxq_env env) (mbox_upd m (\<lambda>x. x\<lparr>txq := Some tq\<rparr>) s1) of
                   (None, s2) \<Rightarrow> fail_alloc_rxq m (- ENOMEM) s2
                 | (Some rq, s2) \<Rightarrow>
                     (let s3 = queue_upd rq (\<lambda>q. q\<lparr>q_mbox := Some m\<rparr>)
                                 (mbox_upd m (\<lambda>x. x\<lparr>rxq := Some rq\<rparr>) s2);
                          ret = request_irq_ret env;
                          s4 = emit (EvRequestIrq m ret) s3
                      in if ret \<noteq> 0 then fail_request_irq m ret (emit EvErr s4)
                         else (0, omap_mbox_enable_irq m IRQ_RX s4))))
         else (0, s0))"

definition omap_mbox_startup :: "nat \<Rightarrow> open_env \<Rightarrow> 'h mbox_state \<Rightarrow> cint \<times> 'h mbox_state" where
  "omap_mbox_startup m env s =
     (let s1 = omap_mbox_enable m s;
          c = mbox_configured s1;
          s2 = s1\<lparr>mbox_configured := c + 1\<rparr>
      in if c = 0 then
           (case startup (ops (mem s2 m)) of
              Some f \<Rightarrow>
                (case f (hw s2) of
                   (ret, h) \<Rightarrow>
                     (let s3 = emit (EvStartup m ret) (s2\<lparr>hw := h\<rparr>)
                      in if ret \<noteq> 0 then fail_startup m ret s3
                         else startup_queues m env s3))
            | None \<Rightarrow> fail_startup m 0 s2)
         else startup_queues m env s2)"

text \<open>
  \<^verbatim>\<open>omap_mbox_fini\<close>. \<^verbatim>\<open>flush_work_sync\<close> and \<^verbatim>\<open>tasklet_kill\<close> dereference
  \<^verbatim>\<open>mbox->rxq\<close> and \<^verbatim>\<open>mbox->txq\<close>: a pointer that is \<^verbatim>\<open>NULL\<close> or freed is a fault.
\<close>

definition fini_shutdown :: "nat \<Rightarrow> 'h mbox_state \<Rightarrow> 'h mbox_state" where
  "fini_shutdown m s =
     (case shutdown (ops (mem s m)) of
        None \<Rightarrow> s
      | Some f \<Rightarrow>
          (let c = mbox_configured s - 1;
               s1 = s\<lparr>mbox_configured := c\<rparr>
           in if c = 0 then emit (EvShutdown m) (s1\<lparr>hw := f (hw s1)\<rparr>) else s1))"

definition omap_mbox_fini :: "nat \<Rightarrow> 'h mbox_state \<Rightarrow> 'h mbox_state option" where
  "omap_mbox_fini m s =
     (case rxq (mem s m) of
        None \<Rightarrow> None
      | Some rq \<Rightarrow>
          (case queues s rq of
             None \<Rightarrow> None
           | Some _ \<Rightarrow>
               (let s1 = emit (EvFlushWork rq) s;
                    u = use_count (mem s1 m) - 1;
                    s2 = mbox_upd m (\<lambda>x. x\<lparr>use_count := u\<rparr>) s1
                in case (if u = 0 then
                           (case txq (mem s2 m) of
                              None \<Rightarrow> None
                            | Some tq \<Rightarrow>
                                (case queues s2 tq of
                                   None \<Rightarrow> None
                                 | Some _ \<Rightarrow>
                                     Some (mbox_queue_free (rxq (mem s2 m))
                                            (mbox_queue_free (txq (mem s2 m))
                                               (emit (EvTaskletKill tq)
                                                  (emit (EvFreeIrq m) s2))))))
                         else Some s2) of
                     None \<Rightarrow> None
                   | Some s3 \<Rightarrow> Some (omap_mbox_disable m (fini_shutdown m s3)))))"

text \<open>
  \<^verbatim>\<open>omap_mbox_get\<close> returns the channel, or an \<^verbatim>\<open>ERR_PTR\<close> (\<open>Inl\<close> with the negative
  error number). \<^verbatim>\<open>omap_mbox_put\<close> is its counterpart.
\<close>

definition omap_mbox_get ::
  "string \<Rightarrow> nat option \<Rightarrow> open_env \<Rightarrow> 'h mbox_state \<Rightarrow> (cint + nat) \<times> 'h mbox_state" where
  "omap_mbox_get nm nb env s =
     (case mboxes s of
        None \<Rightarrow> (Inl (- EINVAL), s)
      | Some l \<Rightarrow>
          (case find (\<lambda>a. name (mem s a) = nm) l of
             None \<Rightarrow> (Inl (- ENOENT), s)
           | Some m \<Rightarrow>
               (case omap_mbox_startup m env s of
                  (ret, s1) \<Rightarrow>
                    if ret \<noteq> 0 then (Inl (- ENODEV), s1)
                    else (Inr m, (case nb of
                                    None \<Rightarrow> s1
                                  | Some n \<Rightarrow> blocking_notifier_chain_register m n s1)))))"

definition omap_mbox_put :: "nat \<Rightarrow> nat option \<Rightarrow> 'h mbox_state \<Rightarrow> 'h mbox_state option" where
  "omap_mbox_put m nb s =
     (case omap_mbox_fini m s of
        None \<Rightarrow> None
      | Some s1 \<Rightarrow>
          Some (case nb of
                  None \<Rightarrow> s1
                | Some n \<Rightarrow> blocking_notifier_chain_unregister m n s1))"

section \<open>Registry and power management\<close>

text \<open>
  \<^verbatim>\<open>omap_mbox_register\<close> and \<^verbatim>\<open>omap_mbox_unregister\<close>. \<open>dev_ret m\<close> is the error code of
  \<^verbatim>\<open>device_create\<close> for the channel \<open>m\<close> (0 when it succeeds); on an error the devices
  created so far are unregistered and \<^verbatim>\<open>mboxes\<close> keeps the list.
\<close>

fun register_loop ::
  "(nat \<Rightarrow> cint) \<Rightarrow> nat list \<Rightarrow> nat list \<Rightarrow> 'h mbox_state \<Rightarrow> cint \<times> 'h mbox_state" where
  "register_loop dev_ret done [] s = (0, s)"
| "register_loop dev_ret done (m # ms) s =
     (let s1 = emit (EvDeviceCreate m (dev_ret m)) s
      in if dev_ret m \<noteq> 0
         then (dev_ret m, foldl (\<lambda>t d. emit (EvDeviceUnregister d) t) s1 done)
         else register_loop dev_ret (m # done) ms (mbox_upd m (\<lambda>x. x\<lparr>notifier := []\<rparr>) s1))"

definition omap_mbox_register ::
  "(nat \<Rightarrow> cint) \<Rightarrow> nat list option \<Rightarrow> 'h mbox_state \<Rightarrow> cint \<times> 'h mbox_state" where
  "omap_mbox_register dev_ret lst s =
     (let s1 = s\<lparr>mboxes := lst\<rparr>
      in case lst of
           None \<Rightarrow> (- EINVAL, s1)
         | Some l \<Rightarrow> register_loop dev_ret [] l s1)"

definition omap_mbox_unregister :: "'h mbox_state \<Rightarrow> cint \<times> 'h mbox_state" where
  "omap_mbox_unregister s =
     (case mboxes s of
        None \<Rightarrow> (- EINVAL, s)
      | Some l \<Rightarrow> (0, (foldl (\<lambda>t d. emit (EvDeviceUnregister d) t) s l)\<lparr>mboxes := None\<rparr>))"

text \<open>
  The runtime-PM callbacks. \<^verbatim>\<open>device_for_each_child\<close> visits the child devices of the
  parent, which are the devices of the registered channels in their order, and stops at the
  first callback that returns an error.
\<close>

definition omap_mbox_save_ctx :: "nat \<Rightarrow> 'h mbox_state \<Rightarrow> cint \<times> 'h mbox_state" where
  "omap_mbox_save_ctx m s =
     (case save_ctx (ops (mem s m)) of
        None \<Rightarrow> (- EINVAL, emit EvErr s)
      | Some f \<Rightarrow> (0, emit (EvSaveCtx m) (s\<lparr>hw := f (hw s)\<rparr>)))"

definition omap_mbox_restore_ctx :: "nat \<Rightarrow> 'h mbox_state \<Rightarrow> cint \<times> 'h mbox_state" where
  "omap_mbox_restore_ctx m s =
     (if use_count (mem s m) = 0 then (0, s)
      else
        (case restore_ctx (ops (mem s m)) of
           None \<Rightarrow> (- EINVAL, emit EvErr s)
         | Some f \<Rightarrow> (0, emit (EvRestoreCtx m) (s\<lparr>hw := f (hw s)\<rparr>))))"

fun device_for_each_child ::
  "(nat \<Rightarrow> 'h mbox_state \<Rightarrow> cint \<times> 'h mbox_state) \<Rightarrow> nat list \<Rightarrow> 'h mbox_state
     \<Rightarrow> cint \<times> 'h mbox_state" where
  "device_for_each_child fn [] s = (0, s)"
| "device_for_each_child fn (m # ms) s =
     (case fn m s of
        (r, s1) \<Rightarrow> if r \<noteq> 0 then (r, s1) else device_for_each_child fn ms s1)"

definition children :: "'h mbox_state \<Rightarrow> nat list" where
  "children s = (case mboxes s of None \<Rightarrow> [] | Some l \<Rightarrow> l)"

definition SET_MPU_CORE_CONSTRAINT :: int where
  "SET_MPU_CORE_CONSTRAINT = 10"

definition CLEAR_MPU_CORE_CONSTRAINT :: int where
  "CLEAR_MPU_CORE_CONSTRAINT = - 1"

definition mbox_runtime_resume :: "'h mbox_state \<Rightarrow> cint \<times> 'h mbox_state" where
  "mbox_runtime_resume s =
     (case device_for_each_child omap_mbox_restore_ctx (children s)
             (emit (EvQos SET_MPU_CORE_CONSTRAINT) s) of
        (ret, s1) \<Rightarrow>
          (ret, if ret \<noteq> 0 then emit (EvQos CLEAR_MPU_CORE_CONSTRAINT) s1 else s1))"

definition mbox_runtime_suspend :: "'h mbox_state \<Rightarrow> cint \<times> 'h mbox_state" where
  "mbox_runtime_suspend s =
     (case device_for_each_child omap_mbox_save_ctx (children s) s of
        (ret, s1) \<Rightarrow>
          (ret, if ret = 0 then emit (EvQos CLEAR_MPU_CORE_CONSTRAINT) s1 else s1))"

section \<open>Example configuration\<close>

text \<open>
  A concrete platform for evaluating the driver: one channel at address 0 whose hardware
  state is the list of messages waiting in the receive FIFO; the transmit FIFO always has
  space. \<open>demo_open tq rq\<close> is the state in which the channel has been opened once, with the
  given transmit and receive queues at the addresses 0 and 1.
\<close>

definition demo_ops :: "mbox_msg_t list omap_mbox_ops" where
  "demo_ops =
     \<lparr>ops_type = OMAP_MBOX_TYPE2,
      startup = Some (\<lambda>h. (0, h)),
      shutdown = Some (\<lambda>h. h),
      fifo_read = (\<lambda>h. (case h of [] \<Rightarrow> 0 | x # xs \<Rightarrow> x, tl h)),
      fifo_write = (\<lambda>msg h. h),
      fifo_empty = (\<lambda>h. (h = [], h)),
      fifo_full = (\<lambda>h. (False, h)),
      enable_irq = (\<lambda>i h. h),
      disable_irq = (\<lambda>i h. h),
      ack_irq = Some (\<lambda>i h. h),
      is_irq = (\<lambda>i h. (False, h)),
      save_ctx = Some (\<lambda>h. h),
      restore_ctx = Some (\<lambda>h. h)\<rparr>"

definition demo_mbox :: "mbox_msg_t list omap_mbox" where
  "demo_mbox =
     \<lparr>name = ''mailbox-1'', irq = 26, txq = None, rxq = None, ops = demo_ops,
      use_count = 0, notifier = []\<rparr>"

definition demo_init :: "mbox_msg_t list mbox_state" where
  "demo_init =
     \<lparr>mboxes = Some [0], mbox_configured = 0, mem = (\<lambda>a. demo_mbox), queues = Map.empty,
      brk = 0, pm_usage = 0, hw = [], trace = []\<rparr>"

definition demo_queue :: "nat \<Rightarrow> byte list \<Rightarrow> omap_mbox_queue" where
  "demo_queue n bs = \<lparr>fifo = \<lparr>kf_size = n, kf_data = bs\<rparr>, q_mbox = Some 0, full = False\<rparr>"

definition demo_open :: "omap_mbox_queue \<Rightarrow> omap_mbox_queue \<Rightarrow> mbox_msg_t list mbox_state" where
  "demo_open tq rq =
     \<lparr>mboxes = Some [0], mbox_configured = 1,
      mem = (\<lambda>a. demo_mbox\<lparr>txq := Some 0, rxq := Some 1, use_count := 1\<rparr>),
      queues = [0 \<mapsto> tq, 1 \<mapsto> rq],
      brk = 2, pm_usage = 1, hw = [], trace = []\<rparr>"

definition demo_env :: open_env where
  "demo_env =
     \<lparr>txq_env = \<lparr>kzalloc_ok = True, kfifo_alloc_res = Some 256\<rparr>,
      rxq_env = \<lparr>kzalloc_ok = True, kfifo_alloc_res = Some 256\<rparr>,
      request_irq_ret = 0\<rparr>"

text \<open>
  Two registered channels, the first in use and the second not: suspend saves both, resume
  restores the first only.
\<close>

definition demo_two :: "mbox_msg_t list mbox_state" where
  "demo_two =
     demo_init\<lparr>mboxes := Some [0, 1],
       mem := (\<lambda>a. if a = 0 then demo_mbox\<lparr>use_count := 1\<rparr>
                    else demo_mbox\<lparr>name := ''mailbox-2''\<rparr>)\<rparr>"

text \<open>The example platform, with no startup callback.\<close>

definition demo_nostartup :: "mbox_msg_t list mbox_state" where
  "demo_nostartup = demo_init\<lparr>mem := (\<lambda>a. demo_mbox\<lparr>ops := demo_ops\<lparr>startup := None\<rparr>\<rparr>)\<rparr>"

text \<open>
  The opened example channel with two observers, two messages waiting in the receive
  queue and the full flag set.
\<close>

definition demo_rx_pending :: "mbox_msg_t list mbox_state" where
  "demo_rx_pending =
     (demo_open (demo_queue 4 []) ((demo_queue 8 [1, 0, 0, 0, 2, 0, 0, 0])\<lparr>full := True\<rparr>))
       \<lparr>mem := (\<lambda>a. demo_mbox\<lparr>txq := Some 0, rxq := Some 1, use_count := 1, notifier := [5, 9]\<rparr>)\<rparr>"

section \<open>Events of one call\<close>

text \<open>
  \<open>new_events s s'\<close> are the events added between the states \<open>s\<close> and \<open>s'\<close>; the
  predicates below classify events.
\<close>

definition new_events :: "'h mbox_state \<Rightarrow> 'h mbox_state \<Rightarrow> event list" where
  "new_events s s' = drop (length (trace s)) (trace s')"

fun is_poll_event :: "nat \<Rightarrow> event \<Rightarrow> bool" where
  "is_poll_event m (EvFifoFull m' b) = (m' = m)"
| "is_poll_event m (EvUdelay n) = True"
| "is_poll_event m e = False"

fun is_enqueue :: "event \<Rightarrow> bool" where
  "is_enqueue (EvKfifoIn qa n) = True"
| "is_enqueue e = False"

fun is_tasklet_schedule :: "event \<Rightarrow> bool" where
  "is_tasklet_schedule (EvTaskletSchedule qa) = True"
| "is_tasklet_schedule e = False"

lemma bytes_msg_msg_bytes: "bytes_msg (msg_bytes m) = m"
  unfolding bytes_msg_def msg_bytes_def
  apply simp
  apply (rule bit_word_eqI)
  subgoal for n
    apply (cases "n < 8"; cases "n < 16"; cases "n < 24")
           apply (auto simp: bit_simps)
    done
  done

lemma length_msg_bytes: "length (msg_bytes m) = sizeof_msg"
  by (simp add: msg_bytes_def sizeof_msg_def)

lemma load_msg_full: "length bs = sizeof_msg \<Longrightarrow> load_msg old bs = bytes_msg bs"
  by (simp add: load_msg_def length_msg_bytes)

lemma poll_loop_trace:
  "poll_loop m i s = (r, s') \<Longrightarrow>
     \<exists>evs. trace s' = trace s @ evs \<and> list_all (is_poll_event m) evs"
proof (induction m i s arbitrary: r s' rule: poll_loop.induct)
  case (1 m i s)
  obtain fl s1 where f: "mbox_fifo_full m s = (fl, s1)"
    by (cases "mbox_fifo_full m s")
  then have s1: "trace s1 = trace s @ [EvFifoFull m fl]"
    by (auto simp: mbox_fifo_full_def emit_def split: prod.splits)
  show ?case
  proof (cases "fl \<and> ops_type (ops (mem s1 m)) \<noteq> OMAP_MBOX_TYPE2 \<and> i - 1 \<noteq> 0")
    case True
    then have rec: "poll_loop m (i - 1) (udelay 1 s1) = (r, s')"
      using "1.prems" f by (subst (asm) poll_loop.simps) simp
    obtain evs where "trace s' = trace (udelay 1 s1) @ evs" "list_all (is_poll_event m) evs"
      using "1.IH" [OF f [symmetric] _ _ _ rec] True by auto
    then have "trace s' = trace s @ ([EvFifoFull m fl, EvUdelay 1] @ evs)
        \<and> list_all (is_poll_event m) ([EvFifoFull m fl, EvUdelay 1] @ evs)"
      using s1 by (simp add: udelay_def emit_def)
    then show ?thesis by blast
  next
    case False
    then have "s' = s1"
      using "1.prems" f by (subst (asm) poll_loop.simps) (auto split: if_splits)
    then have "trace s' = trace s @ [EvFifoFull m fl] \<and> list_all (is_poll_event m) [EvFifoFull m fl]"
      using s1 by simp
    then show ?thesis by blast
  qed
qed

text \<open>The trace is write-only: the poll does the same from a state with another trace.\<close>
lemma poll_loop_trace_indep:
  "poll_loop m i (s\<lparr>trace := t\<rparr>) =
     (case poll_loop m i s of (r, s') \<Rightarrow> (r, s'\<lparr>trace := t @ new_events s s'\<rparr>))"
proof (induction m i s arbitrary: t rule: poll_loop.induct)
  case (1 m i s)
  obtain fl s1 where f: "mbox_fifo_full m s = (fl, s1)"
    by (cases "mbox_fifo_full m s")
  then have s1: "trace s1 = trace s @ [EvFifoFull m fl]"
    by (auto simp: mbox_fifo_full_def emit_def split: prod.splits)
  have f': "mbox_fifo_full m (s\<lparr>trace := t\<rparr>) = (fl, s1\<lparr>trace := t @ [EvFifoFull m fl]\<rparr>)"
    using f by (auto simp: mbox_fifo_full_def emit_def split: prod.splits)
  show ?case
  proof (cases "fl \<and> ops_type (ops (mem s1 m)) \<noteq> OMAP_MBOX_TYPE2 \<and> i - 1 \<noteq> 0")
    case True
    obtain r s' where rec: "poll_loop m (i - 1) (udelay 1 s1) = (r, s')"
      by (cases "poll_loop m (i - 1) (udelay 1 s1)")
    have u: "udelay 1 (s1\<lparr>trace := t @ [EvFifoFull m fl]\<rparr>)
        = (udelay 1 s1)\<lparr>trace := t @ [EvFifoFull m fl, EvUdelay 1]\<rparr>"
      by (simp add: udelay_def emit_def)
    obtain evs where evs: "trace s' = trace (udelay 1 s1) @ evs"
      using poll_loop_trace [OF rec] by blast
    have l: "poll_loop m i s = (r, s')"
      using True f rec by (subst poll_loop.simps) simp
    have "poll_loop m i (s\<lparr>trace := t\<rparr>)
        = poll_loop m (i - 1) ((udelay 1 s1)\<lparr>trace := t @ [EvFifoFull m fl, EvUdelay 1]\<rparr>)"
      using True f' u by (subst poll_loop.simps) simp
    also have "\<dots> = (r, s'\<lparr>trace := (t @ [EvFifoFull m fl, EvUdelay 1]) @ new_events (udelay 1 s1) s'\<rparr>)"
      using "1.IH" [OF f [symmetric], where t = "t @ [EvFifoFull m fl, EvUdelay 1]"] True rec by simp
    also have "\<dots> = (r, s'\<lparr>trace := t @ new_events s s'\<rparr>)"
      using evs s1 by (simp add: new_events_def udelay_def emit_def)
    finally show ?thesis using l by simp
  next
    case False
    then have l: "poll_loop m i s = ((if fl then - 1 else 0), s1)"
      using f by (subst poll_loop.simps) auto
    have "poll_loop m i (s\<lparr>trace := t\<rparr>) = ((if fl then - 1 else 0), s1\<lparr>trace := t @ [EvFifoFull m fl]\<rparr>)"
      using False f' by (subst poll_loop.simps) auto
    then show ?thesis using l s1 by (simp add: new_events_def)
  qed
qed

lemma queue_at_Some: "queues s qa = Some q \<Longrightarrow> queue_at s qa = q"
  by (simp add: queue_at_def)

lemma neg_ENOMEM_neq_0: "- ENOMEM \<noteq> (0 :: cint)"
  by (simp add: ENOMEM_def)

lemmas demo_defs =
  demo_open_def demo_queue_def demo_mbox_def demo_ops_def demo_init_def demo_env_def

section \<open>A mailbox with observable hardware\<close>

text \<open>
  A second platform, whose hardware keeps what the driver did to it: the messages waiting in
  the receive FIFO, the free slots of the transmit FIFO and the messages written to it, and
  the log of the other callbacks, each with the tag of the channel it was invoked through.
  The mailbox is of type 2. \<open>sim_init\<close> has two registered channels and nothing open;
  \<open>sim_open tq rq h\<close> has the channel 0 opened once, with the transmit queue \<open>tq\<close> at the
  address 0 and the receive queue \<open>rq\<close> at the address 1, on the hardware \<open>h\<close>.
\<close>

datatype hw_op =
    OpStartup nat
  | OpShutdown nat
  | OpEnable nat omap_mbox_irq_t
  | OpDisable nat omap_mbox_irq_t
  | OpAck nat omap_mbox_irq_t
  | OpSave nat
  | OpRestore nat

record sim_hw =
  rx_pending :: "mbox_msg_t list"
  tx_room :: nat
  tx_sent :: "mbox_msg_t list"
  oplog :: "hw_op list"

definition hw_log :: "hw_op \<Rightarrow> sim_hw \<Rightarrow> sim_hw" where
  "hw_log x h = h\<lparr>oplog := oplog h @ [x]\<rparr>"

definition sim_ops :: "nat \<Rightarrow> sim_hw omap_mbox_ops" where
  "sim_ops c =
     \<lparr>ops_type = OMAP_MBOX_TYPE2,
      startup = Some (\<lambda>h. (0, hw_log (OpStartup c) h)),
      shutdown = Some (hw_log (OpShutdown c)),
      fifo_read = (\<lambda>h. (case rx_pending h of [] \<Rightarrow> 0 | x # xs \<Rightarrow> x,
                         h\<lparr>rx_pending := tl (rx_pending h)\<rparr>)),
      fifo_write = (\<lambda>msg h. h\<lparr>tx_room := tx_room h - 1, tx_sent := tx_sent h @ [msg]\<rparr>),
      fifo_empty = (\<lambda>h. (rx_pending h = [], h)),
      fifo_full = (\<lambda>h. (tx_room h = 0, h)),
      enable_irq = (\<lambda>i. hw_log (OpEnable c i)),
      disable_irq = (\<lambda>i. hw_log (OpDisable c i)),
      ack_irq = Some (\<lambda>i. hw_log (OpAck c i)),
      is_irq = (\<lambda>i h. (False, h)),
      save_ctx = Some (hw_log (OpSave c)),
      restore_ctx = Some (hw_log (OpRestore c))\<rparr>"

definition sim_mbox :: "nat \<Rightarrow> sim_hw omap_mbox" where
  "sim_mbox c =
     \<lparr>name = (if c = 0 then ''mailbox-1'' else ''mailbox-2''), irq = 26, txq = None,
      rxq = None, ops = sim_ops c, use_count = 0, notifier = []\<rparr>"

definition sim_hw0 :: sim_hw where
  "sim_hw0 = \<lparr>rx_pending = [], tx_room = 4, tx_sent = [], oplog = []\<rparr>"

definition sim_init :: "sim_hw mbox_state" where
  "sim_init =
     \<lparr>mboxes = Some [0, 1], mbox_configured = 0, mem = sim_mbox, queues = Map.empty,
      brk = 0, pm_usage = 0, hw = sim_hw0, trace = []\<rparr>"

definition sim_open :: "omap_mbox_queue \<Rightarrow> omap_mbox_queue \<Rightarrow> sim_hw \<Rightarrow> sim_hw mbox_state" where
  "sim_open tq rq h =
     \<lparr>mboxes = Some [0, 1], mbox_configured = 1,
      mem = (\<lambda>a. if a = 0 then (sim_mbox 0)\<lparr>txq := Some 0, rxq := Some 1, use_count := 1\<rparr>
                   else sim_mbox a),
      queues = [0 \<mapsto> tq, 1 \<mapsto> rq],
      brk = 2, pm_usage = 1, hw = h, trace = []\<rparr>"

lemmas sim_defs =
  sim_ops_def sim_mbox_def sim_hw0_def sim_init_def sim_open_def hw_log_def demo_queue_def
  demo_env_def

section \<open>Transmit admission\<close>

text \<open>
  Claim C3. On a channel whose transmit queue is allocated, \<^verbatim>\<open>omap_mbox_msg_send\<close> returns
  \<^verbatim>\<open>-ENOMEM\<close> (the spec's QueueFull) exactly when the queue has room for less than one
  message, and 0 in every other case. When it returns \<^verbatim>\<open>-ENOMEM\<close> the state is the one
  before the call but for the lock being taken and released: no queue copy, no hardware
  access.
\<close>

theorem C3_send_queue_full:
  assumes "txq (mem s m) = Some mq" and "queues s mq = Some q"
  shows "\<exists>r s'. omap_mbox_msg_send m msg s = Some (r, s') \<and>
      (r = - ENOMEM \<longleftrightarrow> kfifo_avail (fifo q) < sizeof_msg) \<and>
      (r = - ENOMEM \<or> r = 0) \<and>
      (kfifo_avail (fifo q) < sizeof_msg \<longrightarrow>
         s' = s\<lparr>trace := trace s @ [EvLock mq, EvUnlock mq]\<rparr>)"
proof (cases "kfifo_avail (fifo q) < sizeof_msg")
  case True
  then have "omap_mbox_msg_send m msg s
      = Some (- ENOMEM, s\<lparr>trace := trace s @ [EvLock mq, EvUnlock mq]\<rparr>)"
    using assms
    by (simp add: omap_mbox_msg_send_def queue_at_Some spin_lock_def spin_unlock_def emit_def
        queue_at_def)
  then show ?thesis using True by simp
next
  case False
  then have "\<exists>s'. omap_mbox_msg_send m msg s = Some (0, s')"
    using assms
    by (auto simp: omap_mbox_msg_send_def queue_at_Some spin_lock_def emit_def queue_at_def
        Let_def split: prod.splits)
  then show ?thesis using False neg_ENOMEM_neq_0 by auto
qed

theorem C3_send_queue_full_witness:
  "\<exists>s'. omap_mbox_msg_send 0 7 (demo_open (demo_queue 4 [1, 0, 0, 0]) (demo_queue 4 []))
        = Some (- ENOMEM, s') \<and>
      s' = (demo_open (demo_queue 4 [1, 0, 0, 0]) (demo_queue 4 []))\<lparr>trace := [EvLock 0, EvUnlock 0]\<rparr>"
proof -
  let ?s = "demo_open (demo_queue 4 [1, 0, 0, 0]) (demo_queue 4 [])"
  have a: "txq (mem ?s 0) = Some 0"
    by (simp add: demo_defs)
  have b: "queues ?s 0 = Some (demo_queue 4 [1, 0, 0, 0])"
    by (simp add: demo_defs)
  have c: "kfifo_avail (fifo (demo_queue 4 [1, 0, 0, 0])) < sizeof_msg"
    by (simp add: demo_defs kfifo_avail_def kfifo_len_def sizeof_msg_def)
  have d: "trace ?s = []"
    by (simp add: demo_defs)
  from C3_send_queue_full [OF a b, of 7] c d show ?thesis
    by auto
qed

lemma poll_for_space_after_lock:
  assumes "mbox_poll_for_space m s = (r, sp)"
  shows "mbox_poll_for_space m (spin_lock mq s)
      = (r, sp\<lparr>trace := trace s @ [EvLock mq] @ new_events s sp\<rparr>)"
proof -
  have "spin_lock mq s = s\<lparr>trace := trace s @ [EvLock mq]\<rparr>"
    by (simp add: spin_lock_def emit_def)
  then show ?thesis
    using assms poll_loop_trace_indep [where m = m and i = 1000 and s = s and t = "trace s @ [EvLock mq]"]
    by (simp add: mbox_poll_for_space_def)
qed

lemma filter_poll_events:
  "list_all (is_poll_event m) evs \<Longrightarrow>
     filter is_enqueue evs = [] \<and> filter is_tasklet_schedule evs = []"
proof (induction evs)
  case Nil
  then show ?case by simp
next
  case (Cons e evs)
  then show ?case by (cases e) auto
qed

text \<open>
  Claim C4. When the transmit queue is empty (and at least one message wide) and the poll
  for hardware space succeeds, \<^verbatim>\<open>omap_mbox_msg_send\<close> returns 0 and writes the message to
  the hardware FIFO: between taking and releasing the lock it does nothing but the poll and
  that one write. The queues are as before, no \<^verbatim>\<open>kfifo_in\<close> is performed and the
  transmit tasklet is not scheduled.
\<close>

theorem C4_send_fast_path:
  assumes "txq (mem s m) = Some mq" and "queues s mq = Some q"
    and "kfifo_is_empty (fifo q)" and "sizeof_msg \<le> kf_size (fifo q)"
    and "mbox_poll_for_space m s = (0, sp)"
  shows "\<exists>s'. omap_mbox_msg_send m msg s = Some (0, s') \<and>
      queues s' = queues s \<and>
      hw s' = fifo_write (ops (mem s m)) msg (hw sp) \<and>
      new_events s s' = [EvLock mq] @ new_events s sp @ [EvFifoWrite m msg, EvUnlock mq] \<and>
      list_all (is_poll_event m) (new_events s sp) \<and>
      filter is_enqueue (new_events s s') = [] \<and>
      filter is_tasklet_schedule (new_events s s') = []"
proof -
  let ?sl = "sp\<lparr>trace := trace s @ [EvLock mq] @ new_events s sp\<rparr>"
  let ?s' = "spin_unlock mq (mbox_fifo_write m msg ?sl)"
  have sw: "same_sw s sp"
    using assms(5) by (rule poll_for_space_frame)
  obtain evs where evs: "trace sp = trace s @ evs" "list_all (is_poll_event m) evs"
    using assms(5) poll_loop_trace [of m 1000 s 0 sp] by (auto simp: mbox_poll_for_space_def)
  then have ne: "new_events s sp = evs"
    by (simp add: new_events_def)
  have av: "\<not> kfifo_avail (fifo q) < sizeof_msg"
    using assms(3,4) by (simp add: kfifo_is_empty_def kfifo_avail_def)
  have send: "omap_mbox_msg_send m msg s = Some (0, ?s')"
    using assms(1,2,3) av poll_for_space_after_lock [OF assms(5), of mq]
    by (simp add: omap_mbox_msg_send_def queue_at_def spin_lock_def emit_def)
  have q: "queues ?s' = queues s"
    using sw by (simp add: spin_unlock_def mbox_fifo_write_def emit_def same_sw_def)
  have h: "hw ?s' = fifo_write (ops (mem s m)) msg (hw sp)"
    using sw by (simp add: spin_unlock_def mbox_fifo_write_def emit_def same_sw_def)
  have t: "new_events s ?s' = [EvLock mq] @ evs @ [EvFifoWrite m msg, EvUnlock mq]"
    using ne by (simp add: spin_unlock_def mbox_fifo_write_def emit_def new_events_def)
  have f: "filter is_enqueue (new_events s ?s') = [] \<and>
      filter is_tasklet_schedule (new_events s ?s') = []"
    using filter_poll_events [OF evs(2)] unfolding t by simp
  show ?thesis
    using send q h t f evs(2) ne by simp
qed

theorem C4_send_fast_path_witness:
  "\<exists>s'. omap_mbox_msg_send 0 7 (demo_open (demo_queue 4 []) (demo_queue 4 [])) = Some (0, s') \<and>
      queues s' = queues (demo_open (demo_queue 4 []) (demo_queue 4 [])) \<and>
      new_events (demo_open (demo_queue 4 []) (demo_queue 4 [])) s'
        = [EvLock 0, EvFifoFull 0 False, EvFifoWrite 0 7, EvUnlock 0]"
proof -
  let ?s = "demo_open (demo_queue 4 []) (demo_queue 4 [])"
  let ?sp = "?s\<lparr>trace := [EvFifoFull 0 False]\<rparr>"
  have a: "txq (mem ?s 0) = Some 0"
    by (simp add: demo_defs)
  have b: "queues ?s 0 = Some (demo_queue 4 [])"
    by (simp add: demo_defs)
  have c: "kfifo_is_empty (fifo (demo_queue 4 []))"
    by (simp add: demo_defs kfifo_is_empty_def kfifo_len_def)
  have d: "sizeof_msg \<le> kf_size (fifo (demo_queue 4 []))"
    by (simp add: demo_defs sizeof_msg_def)
  have e: "mbox_poll_for_space 0 ?s = (0, ?sp)"
    by (simp add: mbox_poll_for_space_def poll_loop.simps mbox_fifo_full_def emit_def demo_defs)
  have f: "new_events ?s ?sp = [EvFifoFull 0 False]"
    by (simp add: new_events_def demo_defs)
  from C4_send_fast_path [OF a b c d e, of 7] f show ?thesis
    by auto
qed

section \<open>Opening without a registry\<close>

text \<open>
  Claim C10. While \<^verbatim>\<open>mboxes\<close> is \<^verbatim>\<open>NULL\<close> (nothing registered yet, a \<^verbatim>\<open>NULL\<close> list
  registered, or after \<^verbatim>\<open>omap_mbox_unregister\<close>), \<^verbatim>\<open>omap_mbox_get\<close> returns
  \<^verbatim>\<open>ERR_PTR(-EINVAL)\<close>, which differs from the \<^verbatim>\<open>-ENOENT\<close> of an unknown name, and
  leaves the whole state as it was: hardware, queues, notifier chains, use counts and
  \<^verbatim>\<open>mbox_configured\<close>.
\<close>

theorem C10_get_unregistered:
  "(mboxes s = None \<longrightarrow> omap_mbox_get nm nb env s = (Inl (- EINVAL), s)) \<and>
   omap_mbox_get nm nb env (snd (omap_mbox_unregister s))
     = (Inl (- EINVAL), snd (omap_mbox_unregister s)) \<and>
   omap_mbox_get nm nb env (snd (omap_mbox_register dev_ret None s))
     = (Inl (- EINVAL), snd (omap_mbox_register dev_ret None s)) \<and>
   - EINVAL \<noteq> - ENOENT"
proof -
  have 1: "mboxes t = None \<Longrightarrow> omap_mbox_get nm nb env t = (Inl (- EINVAL), t)"
    for t :: "'a mbox_state"
    by (simp add: omap_mbox_get_def)
  have 2: "mboxes (snd (omap_mbox_unregister s)) = None"
    by (simp add: omap_mbox_unregister_def split: option.splits)
  have 3: "mboxes (snd (omap_mbox_register dev_ret None s)) = None"
    by (simp add: omap_mbox_register_def)
  have 4: "- EINVAL \<noteq> - ENOENT"
    by (simp add: EINVAL_def ENOENT_def)
  show ?thesis
    using 1 [of s] 1 [OF 2] 1 [OF 3] 4 by simp
qed

theorem C10_get_unregistered_witness:
  "omap_mbox_get ''mailbox-1'' None demo_env (demo_init\<lparr>mboxes := None\<rparr>)
     = (Inl (- EINVAL), demo_init\<lparr>mboxes := None\<rparr>) \<and>
   fst (omap_mbox_get ''mailbox-1'' None demo_env demo_init) = Inr 0"
proof -
  have a: "mboxes (demo_init\<lparr>mboxes := None\<rparr>) = None"
    by simp
  have b: "fst (omap_mbox_get ''mailbox-1'' None demo_env demo_init) = Inr 0"
    by (simp add: omap_mbox_get_def omap_mbox_startup_def startup_queues_def
        mbox_queue_alloc_def omap_mbox_enable_def omap_mbox_enable_irq_def emit_def mbox_upd_def
        queue_upd_def queue_at_def demo_defs Let_def)
  from C10_get_unregistered [of "demo_init\<lparr>mboxes := None\<rparr>" "''mailbox-1''" None demo_env] a b
  show ?thesis by blast
qed

section \<open>Context save and restore\<close>

text \<open>The channels whose save hook, and whose restore hook, a list of events invokes.\<close>

fun saved_ctx :: "event list \<Rightarrow> nat list" where
  "saved_ctx [] = []"
| "saved_ctx (EvSaveCtx m # evs) = m # saved_ctx evs"
| "saved_ctx (e # evs) = saved_ctx evs"

fun restored_ctx :: "event list \<Rightarrow> nat list" where
  "restored_ctx [] = []"
| "restored_ctx (EvRestoreCtx m # evs) = m # restored_ctx evs"
| "restored_ctx (e # evs) = restored_ctx evs"

text \<open>
  A channel that has a save hook; a channel on which \<^verbatim>\<open>omap_mbox_restore_ctx\<close> succeeds,
  being unused or having a restore hook; a channel in use.
\<close>

definition has_save :: "'h mbox_state \<Rightarrow> nat \<Rightarrow> bool" where
  "has_save s m = (save_ctx (ops (mem s m)) \<noteq> None)"

definition may_restore :: "'h mbox_state \<Rightarrow> nat \<Rightarrow> bool" where
  "may_restore s m = (use_count (mem s m) = 0 \<or> restore_ctx (ops (mem s m)) \<noteq> None)"

definition in_use :: "'h mbox_state \<Rightarrow> nat \<Rightarrow> bool" where
  "in_use s m = (use_count (mem s m) \<noteq> 0)"

lemma neg_EINVAL_neq_0: "- EINVAL \<noteq> (0 :: cint)" "EINVAL \<noteq> 0"
  by (simp_all add: EINVAL_def)

lemma save_ctx_None:
  "save_ctx (ops (mem s m)) = None \<Longrightarrow> omap_mbox_save_ctx m s = (- EINVAL, emit EvErr s)"
  by (simp add: omap_mbox_save_ctx_def)

lemma save_ctx_Some:
  "save_ctx (ops (mem s m)) = Some f \<Longrightarrow>
     omap_mbox_save_ctx m s = (0, emit (EvSaveCtx m) (s\<lparr>hw := f (hw s)\<rparr>))"
  by (simp add: omap_mbox_save_ctx_def)

lemma restore_ctx_unused:
  "use_count (mem s m) = 0 \<Longrightarrow> omap_mbox_restore_ctx m s = (0, s)"
  by (simp add: omap_mbox_restore_ctx_def)

lemma restore_ctx_None:
  "use_count (mem s m) \<noteq> 0 \<Longrightarrow> restore_ctx (ops (mem s m)) = None \<Longrightarrow>
     omap_mbox_restore_ctx m s = (- EINVAL, emit EvErr s)"
  by (simp add: omap_mbox_restore_ctx_def)

lemma restore_ctx_Some:
  "use_count (mem s m) \<noteq> 0 \<Longrightarrow> restore_ctx (ops (mem s m)) = Some f \<Longrightarrow>
     omap_mbox_restore_ctx m s = (0, emit (EvRestoreCtx m) (s\<lparr>hw := f (hw s)\<rparr>))"
  by (simp add: omap_mbox_restore_ctx_def)

text \<open>
  The hardware after the save hooks, and after the restore hooks, of the channels \<open>ms\<close> have
  been applied in order.
\<close>

definition save_hw :: "'h mbox_state \<Rightarrow> nat list \<Rightarrow> 'h \<Rightarrow> 'h" where
  "save_hw s ms h =
     foldl (\<lambda>h m. case save_ctx (ops (mem s m)) of None \<Rightarrow> h | Some f \<Rightarrow> f h) h ms"

definition restore_hw :: "'h mbox_state \<Rightarrow> nat list \<Rightarrow> 'h \<Rightarrow> 'h" where
  "restore_hw s ms h =
     foldl (\<lambda>h m. case restore_ctx (ops (mem s m)) of None \<Rightarrow> h | Some f \<Rightarrow> f h) h ms"

lemma save_children_spec:
  "device_for_each_child omap_mbox_save_ctx ms s =
     (if list_all (has_save s) ms then 0 else - EINVAL,
      s\<lparr>hw := save_hw s (takeWhile (has_save s) ms) (hw s),
        trace := trace s @ map EvSaveCtx (takeWhile (has_save s) ms)
                   @ (if list_all (has_save s) ms then [] else [EvErr])\<rparr>)"
proof (induction ms arbitrary: s)
  case Nil
  then show ?case by (simp add: save_hw_def)
next
  case (Cons m ms)
  show ?case
  proof (cases "save_ctx (ops (mem s m))")
    case None
    then have mr: "\<not> has_save s m"
      by (simp add: has_save_def)
    show ?thesis
      using None mr by (simp add: save_ctx_None neg_EINVAL_neq_0 save_hw_def emit_def)
  next
    case (Some f)
    let ?s1 = "emit (EvSaveCtx m) (s\<lparr>hw := f (hw s)\<rparr>)"
    have hs: "has_save ?s1 = has_save s" "save_hw ?s1 = save_hw s"
      by (simp_all add: has_save_def save_hw_def emit_def fun_eq_iff)
    have h1: "hw ?s1 = f (hw s)" "trace ?s1 = trace s @ [EvSaveCtx m]"
      by (simp_all add: emit_def)
    have st: "device_for_each_child omap_mbox_save_ctx (m # ms) s
        = device_for_each_child omap_mbox_save_ctx ms ?s1"
      using Some by (simp add: save_ctx_Some)
    have hm: "has_save s m"
      using Some by (simp add: has_save_def)
    have sh: "save_hw s (m # xs) (hw s) = save_hw s xs (f (hw s))" for xs
      using Some by (simp add: save_hw_def)
    show ?thesis
      unfolding st Cons.IH [of ?s1] hs h1 using hm sh by (simp add: emit_def)
  qed
qed

lemma restore_children_spec:
  "device_for_each_child omap_mbox_restore_ctx ms s =
     (if list_all (may_restore s) ms then 0 else - EINVAL,
      s\<lparr>hw := restore_hw s (filter (in_use s) (takeWhile (may_restore s) ms)) (hw s),
        trace := trace s @ map EvRestoreCtx (filter (in_use s) (takeWhile (may_restore s) ms))
                   @ (if list_all (may_restore s) ms then [] else [EvErr])\<rparr>)"
proof (induction ms arbitrary: s)
  case Nil
  then show ?case by (simp add: restore_hw_def)
next
  case (Cons m ms)
  show ?case
  proof (cases "use_count (mem s m) = 0")
    case True
    then have st: "device_for_each_child omap_mbox_restore_ctx (m # ms) s
        = device_for_each_child omap_mbox_restore_ctx ms s"
      by (simp add: restore_ctx_unused)
    have mr: "may_restore s m" "\<not> in_use s m"
      using True by (simp_all add: in_use_def may_restore_def)
    show ?thesis
      unfolding st Cons.IH [of s] using mr by simp
  next
    case False
    show ?thesis
    proof (cases "restore_ctx (ops (mem s m))")
      case None
      then have mr: "\<not> may_restore s m"
        using False by (simp add: may_restore_def)
      show ?thesis
        using False None mr
        by (simp add: restore_ctx_None neg_EINVAL_neq_0 restore_hw_def emit_def)
    next
      case (Some f)
      let ?s1 = "emit (EvRestoreCtx m) (s\<lparr>hw := f (hw s)\<rparr>)"
      have hs: "may_restore ?s1 = may_restore s" "in_use ?s1 = in_use s"
        "restore_hw ?s1 = restore_hw s"
        by (simp_all add: may_restore_def in_use_def restore_hw_def emit_def fun_eq_iff)
      have h1: "hw ?s1 = f (hw s)" "trace ?s1 = trace s @ [EvRestoreCtx m]"
        by (simp_all add: emit_def)
      have st: "device_for_each_child omap_mbox_restore_ctx (m # ms) s
          = device_for_each_child omap_mbox_restore_ctx ms ?s1"
        using Some False by (simp add: restore_ctx_Some)
      have hm: "may_restore s m" "in_use s m"
        using Some False by (simp_all add: may_restore_def in_use_def)
      have sh: "restore_hw s (m # xs) (hw s) = restore_hw s xs (f (hw s))" for xs
        using Some by (simp add: restore_hw_def)
      show ?thesis
        unfolding st Cons.IH [of ?s1] hs h1 using hm sh by (simp add: emit_def)
    qed
  qed
qed

text \<open>
  Claim C9, as amended. \<^verbatim>\<open>mbox_runtime_suspend\<close> invokes the save hook of every registered
  channel in order, whatever its \<^verbatim>\<open>use_count\<close>, up to the first channel that has no save
  hook: it returns 0 and releases the QoS constraint when every channel has one, and fails
  with \<^verbatim>\<open>-EINVAL\<close> at the first channel without. \<^verbatim>\<open>mbox_runtime_resume\<close> sets the QoS
  constraint and invokes the restore hook of exactly the channels whose \<^verbatim>\<open>use_count\<close> is not
  0, in order, skipping the others, up to the first channel in use that has no restore hook:
  it returns 0 when there is none, and otherwise fails with \<^verbatim>\<open>-EINVAL\<close> and releases the
  constraint. The hooks act on the hardware in that order, and nothing but the hardware and
  the trace changes.
\<close>

theorem C9_suspend_resume:
  "mbox_runtime_suspend s =
     (if list_all (has_save s) (children s) then 0 else - EINVAL,
      s\<lparr>hw := save_hw s (takeWhile (has_save s) (children s)) (hw s),
        trace := trace s @ map EvSaveCtx (takeWhile (has_save s) (children s))
                   @ (if list_all (has_save s) (children s)
                      then [EvQos CLEAR_MPU_CORE_CONSTRAINT] else [EvErr])\<rparr>) \<and>
   mbox_runtime_resume s =
     (if list_all (may_restore s) (children s) then 0 else - EINVAL,
      s\<lparr>hw := restore_hw s (filter (in_use s) (takeWhile (may_restore s) (children s))) (hw s),
        trace := trace s @ [EvQos SET_MPU_CORE_CONSTRAINT]
                   @ map EvRestoreCtx (filter (in_use s) (takeWhile (may_restore s) (children s)))
                   @ (if list_all (may_restore s) (children s)
                      then [] else [EvErr, EvQos CLEAR_MPU_CORE_CONSTRAINT])\<rparr>)"
proof -
  let ?s0 = "emit (EvQos SET_MPU_CORE_CONSTRAINT) s"
  have ch: "children ?s0 = children s" "in_use ?s0 = in_use s" "may_restore ?s0 = may_restore s"
    "restore_hw ?s0 = restore_hw s" "hw ?s0 = hw s"
    "trace ?s0 = trace s @ [EvQos SET_MPU_CORE_CONSTRAINT]"
    by (simp_all add: children_def in_use_def may_restore_def restore_hw_def emit_def fun_eq_iff)
  have a: "mbox_runtime_suspend s =
     (if list_all (has_save s) (children s) then 0 else - EINVAL,
      s\<lparr>hw := save_hw s (takeWhile (has_save s) (children s)) (hw s),
        trace := trace s @ map EvSaveCtx (takeWhile (has_save s) (children s))
                   @ (if list_all (has_save s) (children s)
                      then [EvQos CLEAR_MPU_CORE_CONSTRAINT] else [EvErr])\<rparr>)"
    unfolding mbox_runtime_suspend_def save_children_spec
    by (simp add: neg_EINVAL_neq_0 emit_def)
  have b: "mbox_runtime_resume s =
     (if list_all (may_restore s) (children s) then 0 else - EINVAL,
      s\<lparr>hw := restore_hw s (filter (in_use s) (takeWhile (may_restore s) (children s))) (hw s),
        trace := trace s @ [EvQos SET_MPU_CORE_CONSTRAINT]
                   @ map EvRestoreCtx (filter (in_use s) (takeWhile (may_restore s) (children s)))
                   @ (if list_all (may_restore s) (children s)
                      then [] else [EvErr, EvQos CLEAR_MPU_CORE_CONSTRAINT])\<rparr>)"
    unfolding mbox_runtime_resume_def restore_children_spec [of "children s" ?s0] ch
    by (simp add: neg_EINVAL_neq_0 emit_def)
  show ?thesis
    using a b by simp
qed

text \<open>
  On the observable platform with the channel 0 open and the channel 1 not: suspend saves
  both channels and resume restores the channel 0 only. When the channel 1 has no save
  hook, suspend saves the channel 0 and fails with \<^verbatim>\<open>-EINVAL\<close>.
\<close>

definition sim_nosave :: "sim_hw mbox_state" where
  "sim_nosave =
     (sim_open (demo_queue 16 []) (demo_queue 16 []) sim_hw0)
       \<lparr>mem := (\<lambda>a. if a = 0 then (sim_mbox 0)\<lparr>txq := Some 0, rxq := Some 1, use_count := 1\<rparr>
                     else (sim_mbox a)\<lparr>ops := (sim_ops a)\<lparr>save_ctx := None\<rparr>\<rparr>)\<rparr>"

theorem C9_suspend_resume_witness:
  "mbox_runtime_suspend (sim_open (demo_queue 16 []) (demo_queue 16 []) sim_hw0)
     = (0, (sim_open (demo_queue 16 []) (demo_queue 16 []) sim_hw0)
            \<lparr>hw := sim_hw0\<lparr>oplog := [OpSave 0, OpSave 1]\<rparr>,
             trace := [EvSaveCtx 0, EvSaveCtx 1, EvQos CLEAR_MPU_CORE_CONSTRAINT]\<rparr>) \<and>
   mbox_runtime_resume (sim_open (demo_queue 16 []) (demo_queue 16 []) sim_hw0)
     = (0, (sim_open (demo_queue 16 []) (demo_queue 16 []) sim_hw0)
            \<lparr>hw := sim_hw0\<lparr>oplog := [OpRestore 0]\<rparr>,
             trace := [EvQos SET_MPU_CORE_CONSTRAINT, EvRestoreCtx 0]\<rparr>) \<and>
   mbox_runtime_suspend sim_nosave
     = (- EINVAL, sim_nosave\<lparr>hw := sim_hw0\<lparr>oplog := [OpSave 0]\<rparr>,
                              trace := [EvSaveCtx 0, EvErr]\<rparr>)"
  using C9_suspend_resume [of "sim_open (demo_queue 16 []) (demo_queue 16 []) sim_hw0"]
    C9_suspend_resume [of sim_nosave]
  by (simp add: children_def has_save_def may_restore_def in_use_def save_hw_def restore_hw_def
      sim_nosave_def sim_defs)

text \<open>
  Claim C9 as stated fails: the channel 1 of \<open>demo_two\<close> has \<^verbatim>\<open>use_count\<close> 0 and its
  context is saved on suspend all the same, so the channels saved are not the channels in
  use, nor the channels restored on resume.
\<close>

theorem C9_counterexample:
  "filter (in_use demo_two) (children demo_two) = [0] \<and>
   use_count (mem demo_two 1) = 0 \<and>
   saved_ctx (new_events demo_two (snd (mbox_runtime_suspend demo_two))) = [0, 1] \<and>
   restored_ctx (new_events demo_two (snd (mbox_runtime_resume demo_two))) = [0]"
  by (simp add: mbox_runtime_suspend_def mbox_runtime_resume_def save_ctx_Some
      restore_ctx_Some restore_ctx_unused children_def new_events_def emit_def in_use_def
      demo_two_def demo_defs)

section \<open>Failure of the hardware startup\<close>

text \<open>
  When the startup callback returns an error, \<^verbatim>\<open>omap_mbox_get\<close> fails with
  \<^verbatim>\<open>-ENODEV\<close>; the use counts, the queue heap and the runtime-PM usage count are as
  before the call.
\<close>

lemma startup_error_rolls_back:
  assumes "mboxes s = Some l" and "find (\<lambda>a. name (mem s a) = nm) l = Some m"
    and "mbox_configured s = 0" and "startup (ops (mem s m)) = Some f"
    and "f (hw s) = (ret, h)" and "ret \<noteq> 0"
  shows "omap_mbox_get nm nb env s
      = (Inl (- ENODEV),
         s\<lparr>mbox_configured := 1, hw := h,
            trace := trace s @ [EvPmGet, EvStartup m ret, EvPmPut]\<rparr>)"
  using assms
  by (simp add: omap_mbox_get_def omap_mbox_startup_def fail_startup_def omap_mbox_enable_def
      omap_mbox_disable_def emit_def Let_def)

text \<open>
  Claim C2 fails on the code where the startup callback is absent: the jump to
  \<^verbatim>\<open>fail_startup\<close> leaves \<^verbatim>\<open>ret\<close> at 0, so \<^verbatim>\<open>omap_mbox_startup\<close> returns 0 and
  \<^verbatim>\<open>omap_mbox_get\<close> returns the channel instead of \<^verbatim>\<open>ERR_PTR(-ENODEV)\<close>. The use count
  and the queues are untouched and the runtime-PM reference is released, but
  \<^verbatim>\<open>mbox_configured\<close> stays at 1.
\<close>

theorem C2_absent_startup_returns_channel:
  "omap_mbox_get ''mailbox-1'' None demo_env demo_nostartup
     = (Inr 0, demo_nostartup\<lparr>mbox_configured := 1, trace := [EvPmGet, EvPmPut]\<rparr>)"
  by (simp add: omap_mbox_get_def omap_mbox_startup_def fail_startup_def omap_mbox_enable_def
      omap_mbox_disable_def emit_def Let_def demo_nostartup_def demo_defs)

section \<open>The poll at the hardware\<close>

text \<open>
  What \<^verbatim>\<open>__mbox_poll_for_space\<close> does to the hardware: it asks whether the transmit FIFO is
  full, at most \<open>n\<close> times with a delay of one microsecond between two questions, and only
  once on a type-2 mailbox. The result tells whether an answer was no, with the hardware
  after the last question and the events of the poll.
\<close>

fun poll_spec :: "'h omap_mbox_ops \<Rightarrow> nat \<Rightarrow> nat \<Rightarrow> 'h \<Rightarrow> bool \<times> 'h \<times> event list" where
  "poll_spec p m 0 h = (False, h, [])"
| "poll_spec p m (Suc n) h =
     (case fifo_full p h of
        (fl, h1) \<Rightarrow>
          if \<not> fl then (True, h1, [EvFifoFull m False])
          else if ops_type p = OMAP_MBOX_TYPE2 \<or> n = 0 then (False, h1, [EvFifoFull m True])
          else (case poll_spec p m n h1 of
                  (ok, h2, evs) \<Rightarrow> (ok, h2, EvFifoFull m True # EvUdelay 1 # evs)))"

lemma w32_small_eq_0: "n < 2 ^ 32 \<Longrightarrow> (of_nat n :: cint) = 0 \<longleftrightarrow> n = 0"
  by (auto simp: word_of_nat_eq_0_iff dest: dvd_imp_le)

lemma neg1_neq_0: "(- 1 :: cint) \<noteq> 0"
  by simp

lemma poll_loop_spec:
  assumes "0 < n" and "n < 2 ^ 32"
  shows "poll_loop m (of_nat n) s =
     (case poll_spec (ops (mem s m)) m n (hw s) of
        (ok, h, evs) \<Rightarrow> (if ok then 0 else - 1, s\<lparr>hw := h, trace := trace s @ evs\<rparr>))"
  using assms
proof (induction n arbitrary: s)
  case 0
  then show ?case by simp
next
  case (Suc k)
  obtain fl h1 where ff: "fifo_full (ops (mem s m)) (hw s) = (fl, h1)"
    by (cases "fifo_full (ops (mem s m)) (hw s)")
  let ?s1 = "s\<lparr>hw := h1, trace := trace s @ [EvFifoFull m fl]\<rparr>"
  have f1: "mbox_fifo_full m s = (fl, ?s1)"
    using ff by (simp add: mbox_fifo_full_def emit_def)
  have k0: "(of_nat (Suc k) :: cint) - 1 = of_nat k"
    by simp
  have kz: "(of_nat k :: cint) = 0 \<longleftrightarrow> k = 0"
    using Suc.prems(2) by (intro w32_small_eq_0) simp
  show ?case
  proof (cases "fl \<and> ops_type (ops (mem s m)) \<noteq> OMAP_MBOX_TYPE2 \<and> k \<noteq> 0")
    case False
    then show ?thesis
      using f1 ff kz by (subst poll_loop.simps) (auto simp: k0)
  next
    case True
    let ?s2 = "s\<lparr>hw := h1, trace := trace s @ [EvFifoFull m True, EvUdelay 1]\<rparr>"
    have u: "udelay d (s\<lparr>hw := h1, trace := trace s @ [EvFifoFull m True]\<rparr>)
        = s\<lparr>hw := h1, trace := trace s @ [EvFifoFull m True, EvUdelay d]\<rparr>" for d
      by (simp add: udelay_def emit_def)
    have rec: "poll_loop m (of_nat (Suc k)) s = poll_loop m (of_nat k) ?s2"
      using f1 True kz by (subst poll_loop.simps) (simp add: k0 u)
    have ih: "poll_loop m (of_nat k) ?s2 =
       (case poll_spec (ops (mem ?s2 m)) m k (hw ?s2) of
          (ok, h, evs) \<Rightarrow> (if ok then 0 else - 1, ?s2\<lparr>hw := h, trace := trace ?s2 @ evs\<rparr>))"
      using Suc.IH [of ?s2] True Suc.prems(2) by simp
    show ?thesis
      unfolding rec ih using ff True by (simp split: prod.splits)
  qed
qed

lemma poll_for_space_spec:
  "mbox_poll_for_space m s =
     (case poll_spec (ops (mem s m)) m 1000 (hw s) of
        (ok, h, evs) \<Rightarrow> (if ok then 0 else - 1, s\<lparr>hw := h, trace := trace s @ evs\<rparr>))"
  unfolding mbox_poll_for_space_def using poll_loop_spec [of 1000 m s] by simp

lemma poll_spec_type2:
  "ops_type p = OMAP_MBOX_TYPE2 \<Longrightarrow> 0 < n \<Longrightarrow>
     poll_spec p m n h = (case fifo_full p h of (fl, h1) \<Rightarrow> (\<not> fl, h1, [EvFifoFull m fl]))"
  by (cases n) (auto split: prod.splits)

lemma poll_spec_no_lock:
  "poll_spec p m n h = (ok, h', evs) \<Longrightarrow> list_all (is_poll_event m) evs"
proof (induction n arbitrary: h ok h' evs)
  case 0
  then show ?case by simp
next
  case (Suc n)
  obtain fl h1 where ff: "fifo_full p h = (fl, h1)"
    by (cases "fifo_full p h")
  show ?case
  proof (cases "fl \<and> \<not> (ops_type p = OMAP_MBOX_TYPE2 \<or> n = 0)")
    case False
    then show ?thesis
      using Suc.prems ff by (auto split: if_splits)
  next
    case True
    obtain ok2 h2 evs2 where r: "poll_spec p m n h1 = (ok2, h2, evs2)"
      by (cases "poll_spec p m n h1")
    then have "evs = EvFifoFull m True # EvUdelay 1 # evs2"
      using Suc.prems ff True by simp
    then show ?thesis
      using Suc.IH [OF r] by simp
  qed
qed

section \<open>Deferred transmit task\<close>

text \<open>The messages a queue holds, oldest first: its bytes, four at a time.\<close>

fun queue_msgs :: "byte list \<Rightarrow> mbox_msg_t list" where
  "queue_msgs (a # b # c # d # bs) = bytes_msg [a, b, c, d] # queue_msgs bs"
| "queue_msgs bs = []"

fun is_lock_event :: "event \<Rightarrow> bool" where
  "is_lock_event (EvLock qa) = True"
| "is_lock_event (EvUnlock qa) = True"
| "is_lock_event e = False"

text \<open>Everything but the queues, the hardware and the trace.\<close>

definition same_ctl :: "'h mbox_state \<Rightarrow> 'h mbox_state \<Rightarrow> bool" where
  "same_ctl s s' \<longleftrightarrow>
     mboxes s' = mboxes s \<and> mbox_configured s' = mbox_configured s \<and> mem s' = mem s \<and>
     brk s' = brk s \<and> pm_usage s' = pm_usage s"

lemma new_events_append: "trace s' = trace s @ evs \<Longrightarrow> new_events s s' = evs"
  by (simp add: new_events_def)

lemma tx_loop_empty:
  "kfifo_len (fifo (queue_at s mq)) = 0 \<Longrightarrow> tx_loop m mq msg s = s"
  by (subst tx_loop.simps) simp

lemma tx_loop_stall:
  "kfifo_len (fifo (queue_at s mq)) \<noteq> 0 \<Longrightarrow> mbox_poll_for_space m s = (r, s1) \<Longrightarrow> r \<noteq> 0 \<Longrightarrow>
     tx_loop m mq msg s = omap_mbox_enable_irq m IRQ_TX s1"
  by (subst tx_loop.simps) simp

lemma tx_loop_step:
  "kfifo_len (fifo (queue_at s mq)) \<noteq> 0 \<Longrightarrow> mbox_poll_for_space m s = (0, s1) \<Longrightarrow>
     q_kfifo_out mq sizeof_msg s1 = (bs, s2) \<Longrightarrow>
     tx_loop m mq msg s =
       tx_loop m mq (load_msg msg bs)
         (mbox_fifo_write m (load_msg msg bs) (WARN_ON (length bs \<noteq> sizeof_msg) s2))"
  by (subst tx_loop.simps) simp

lemma whole_msgs_cases:
  assumes "length bs mod sizeof_msg = 0"
  obtains "bs = []" | a b c d rest where "bs = a # b # c # d # rest" "length rest mod sizeof_msg = 0"
proof (cases bs)
  case Nil
  then show ?thesis using that by simp
next
  case (Cons a t1)
  then obtain b t2 where t1: "t1 = b # t2"
    using assms by (cases t1) (auto simp: sizeof_msg_def)
  then obtain c t3 where t2: "t2 = c # t3"
    using assms Cons by (cases t2) (auto simp: sizeof_msg_def)
  then obtain d rest where t3: "t3 = d # rest"
    using assms Cons t1 by (cases t3) (auto simp: sizeof_msg_def)
  have "length rest mod sizeof_msg = 0"
    using assms Cons t1 t2 t3 by (simp add: sizeof_msg_def)
  then show ?thesis
    using that(2) Cons t1 t2 t3 by simp
qed

lemma four_bytes: "Suc (Suc (Suc (Suc 0))) = sizeof_msg"
  by (simp add: sizeof_msg_def)

lemma kfifo_out_one:
  assumes "queues s mq = Some q" and "kf_data (fifo q) = a # b # c # d # rest"
  shows "q_kfifo_out mq sizeof_msg s =
     ([a, b, c, d],
      emit (EvKfifoOut mq sizeof_msg)
        (s\<lparr>queues := (queues s)(mq \<mapsto> q\<lparr>fifo := (fifo q)\<lparr>kf_data := rest\<rparr>\<rparr>)\<rparr>))"
proof -
  have "min sizeof_msg (length (kf_data (fifo q))) = sizeof_msg"
    "take sizeof_msg (kf_data (fifo q)) = [a, b, c, d]"
    "drop sizeof_msg (kf_data (fifo q)) = rest"
    using assms(2) by (simp_all add: sizeof_msg_def)
  then show ?thesis
    using assms(1)
    by (simp add: q_kfifo_out_def kfifo_out_def kfifo_len_def queue_at_def queue_upd_def Let_def
        four_bytes)
qed

lemma length_queue_msgs: "length (queue_msgs bs) = length bs div sizeof_msg"
  by (induction bs rule: queue_msgs.induct) (simp_all add: sizeof_msg_def)

lemma msgs_cases:
  obtains "length bs < sizeof_msg" "queue_msgs bs = []"
  | a b c d rest where "bs = a # b # c # d # rest"
proof (cases bs)
  case Nil
  then show ?thesis using that(1) by (simp add: sizeof_msg_def)
next
  case (Cons a t1)
  show ?thesis
  proof (cases t1)
    case Nil
    then show ?thesis using that(1) Cons by (simp add: sizeof_msg_def)
  next
    case (Cons b t2)
    note t1 = this
    show ?thesis
    proof (cases t2)
      case Nil
      then show ?thesis using that(1) t1 \<open>bs = a # t1\<close> by (simp add: sizeof_msg_def)
    next
      case (Cons c t3)
      note t2 = this
      show ?thesis
      proof (cases t3)
        case Nil
        then show ?thesis using that(1) t1 t2 \<open>bs = a # t1\<close> by (simp add: sizeof_msg_def)
      next
        case (Cons d rest)
        then show ?thesis using that(2) t1 t2 \<open>bs = a # t1\<close> by simp
      qed
    qed
  qed
qed

text \<open>
  What the transmit task does to the hardware for the queued messages \<open>xs\<close>, oldest first:
  before each message it polls for space; when the poll gives up it enables the TX interrupt
  and stops; otherwise it takes the message from the queue and writes it to the hardware
  FIFO. The result is the number of messages written, the hardware at the end and the
  events.
\<close>

fun tx_spec ::
  "'h omap_mbox_ops \<Rightarrow> nat \<Rightarrow> nat \<Rightarrow> mbox_msg_t list \<Rightarrow> 'h \<Rightarrow> nat \<times> 'h \<times> event list" where
  "tx_spec p m mq [] h = (0, h, [])"
| "tx_spec p m mq (x # xs) h =
     (case poll_spec p m 1000 h of
        (ok, h1, pe) \<Rightarrow>
          if \<not> ok then (0, enable_irq p IRQ_TX h1, pe @ [EvEnableIrq m IRQ_TX])
          else (case tx_spec p m mq xs (fifo_write p x h1) of
                  (n, h2, evs) \<Rightarrow>
                    (Suc n, h2, pe @ [EvKfifoOut mq sizeof_msg, EvFifoWrite m x] @ evs)))"

lemma tx_spec_count: "fst (tx_spec p m mq xs h) \<le> length xs"
proof (induction xs arbitrary: h)
  case Nil
  then show ?case by simp
next
  case (Cons x xs)
  obtain ok h1 pe where po: "poll_spec p m 1000 h = (ok, h1, pe)"
    by (cases "poll_spec p m 1000 h")
  show ?case
    using Cons.IH [of "fifo_write p x h1"] po by (auto split: prod.splits)
qed

lemma tx_loop_spec:
  assumes "queues s mq = Some q" and "length (kf_data (fifo q)) mod sizeof_msg = 0"
  shows "tx_loop m mq msg s =
     (case tx_spec (ops (mem s m)) m mq (queue_msgs (kf_data (fifo q))) (hw s) of
        (n, h, evs) \<Rightarrow>
          s\<lparr>queues := (queues s)(mq \<mapsto>
               q\<lparr>fifo := (fifo q)\<lparr>kf_data := drop (sizeof_msg * n) (kf_data (fifo q))\<rparr>\<rparr>),
            hw := h, trace := trace s @ evs\<rparr>)"
  using assms
proof (induction "length (kf_data (fifo q))" arbitrary: s q msg rule: less_induct)
  case less
  have qa: "queue_at s mq = q"
    using less.prems(1) by (simp add: queue_at_def)
  from less.prems(2) show ?case
  proof (cases "kf_data (fifo q)" rule: whole_msgs_cases)
    case 1
    then have "tx_loop m mq msg s = s"
      using qa by (simp add: tx_loop_empty kfifo_len_def)
    moreover have "q\<lparr>fifo := (fifo q)\<lparr>kf_data := []\<rparr>\<rparr> = q"
      using 1 by simp
    ultimately show ?thesis
      using 1 less.prems(1) by (simp add: map_upd_triv)
  next
    case (2 a b c d rest)
    let ?p = "ops (mem s m)"
    let ?x = "bytes_msg [a, b, c, d]"
    have ne: "kfifo_len (fifo (queue_at s mq)) \<noteq> 0"
      using qa 2 by (simp add: kfifo_len_def)
    have msgs: "queue_msgs (kf_data (fifo q)) = ?x # queue_msgs rest"
      using 2(1) by simp
    obtain ok h1 pe where po: "poll_spec ?p m 1000 (hw s) = (ok, h1, pe)"
      by (cases "poll_spec ?p m 1000 (hw s)")
    let ?sp = "s\<lparr>hw := h1, trace := trace s @ pe\<rparr>"
    have p: "mbox_poll_for_space m s = (if ok then 0 else - 1, ?sp)"
      using po by (simp add: poll_for_space_spec)
    show ?thesis
    proof (cases ok)
      case False
      then have pf: "mbox_poll_for_space m s = (- 1, ?sp)"
        using p by simp
      have "tx_loop m mq msg s = omap_mbox_enable_irq m IRQ_TX ?sp"
        by (rule tx_loop_stall [OF ne pf neg1_neq_0])
      moreover have "q\<lparr>fifo := (fifo q)\<lparr>kf_data := kf_data (fifo q)\<rparr>\<rparr> = q"
        by simp
      ultimately show ?thesis
        using False po less.prems(1) unfolding msgs
        by (simp add: omap_mbox_enable_irq_def emit_def map_upd_triv)
    next
      case True
      let ?q3 = "q\<lparr>fifo := (fifo q)\<lparr>kf_data := rest\<rparr>\<rparr>"
      let ?s2 = "emit (EvKfifoOut mq sizeof_msg) (?sp\<lparr>queues := (queues ?sp)(mq \<mapsto> ?q3)\<rparr>)"
      let ?s3 = "s\<lparr>queues := (queues s)(mq \<mapsto> ?q3), hw := fifo_write ?p ?x h1,
          trace := trace s @ pe @ [EvKfifoOut mq sizeof_msg, EvFifoWrite m ?x]\<rparr>"
      have p0: "mbox_poll_for_space m s = (0, ?sp)"
        using p True by simp
      have q1: "queues ?sp mq = Some q"
        using less.prems(1) by simp
      have o: "q_kfifo_out mq sizeof_msg ?sp = ([a, b, c, d], ?s2)"
        using q1 2(1) by (rule kfifo_out_one)
      have lm: "load_msg msg [a, b, c, d] = ?x"
        by (simp add: load_msg_full sizeof_msg_def)
      have w: "WARN_ON (length [a, b, c, d] \<noteq> sizeof_msg) ?s2 = ?s2"
        by (simp add: WARN_ON_def sizeof_msg_def)
      have s3: "mbox_fifo_write m ?x ?s2 = ?s3"
        by (simp add: mbox_fifo_write_def emit_def)
      have l: "tx_loop m mq msg s = tx_loop m mq ?x ?s3"
        using tx_loop_step [OF ne p0 o, of msg] unfolding lm w s3 .
      have q3: "queues ?s3 mq = Some ?q3"
        by simp
      have r3: "length (kf_data (fifo ?q3)) mod sizeof_msg = 0"
        using 2(2) by simp
      have sh: "length (kf_data (fifo ?q3)) < length (kf_data (fifo q))"
        using 2(1) by simp
      have ih: "tx_loop m mq ?x ?s3 =
         (case tx_spec (ops (mem ?s3 m)) m mq (queue_msgs (kf_data (fifo ?q3))) (hw ?s3) of
            (n, h, evs) \<Rightarrow>
              ?s3\<lparr>queues := (queues ?s3)(mq \<mapsto>
                   ?q3\<lparr>fifo := (fifo ?q3)\<lparr>kf_data := drop (sizeof_msg * n) (kf_data (fifo ?q3))\<rparr>\<rparr>),
                hw := h, trace := trace ?s3 @ evs\<rparr>)"
        using sh q3 r3 by (rule less.hyps)
      have dr: "drop (sizeof_msg + sizeof_msg * n) (kf_data (fifo q)) = drop (sizeof_msg * n) rest"
        for n
      proof -
        have "drop (sizeof_msg + sizeof_msg * n) (kf_data (fifo q))
            = drop (sizeof_msg * n) (drop sizeof_msg (kf_data (fifo q)))"
          by (simp add: add.commute)
        also have "drop sizeof_msg (kf_data (fifo q)) = rest"
          using 2(1) by (simp add: sizeof_msg_def)
        finally show ?thesis .
      qed
      show ?thesis
        unfolding l ih msgs using po True by (simp add: dr split: prod.splits)
    qed
  qed
qed

lemma tx_spec_end:
  "tx_spec p m mq xs h = (n, h', evs) \<Longrightarrow>
     n = length xs \<and> EvEnableIrq m IRQ_TX \<notin> set evs \<or>
     n < length xs \<and> evs \<noteq> [] \<and> last evs = EvEnableIrq m IRQ_TX"
proof (induction xs arbitrary: h n h' evs)
  case Nil
  then show ?case by simp
next
  case (Cons x xs)
  obtain ok h1 pe where po: "poll_spec p m 1000 h = (ok, h1, pe)"
    by (cases "poll_spec p m 1000 h")
  have pe: "EvEnableIrq m IRQ_TX \<notin> set pe"
    using poll_spec_no_lock [OF po] by (auto simp: list_all_iff)
  show ?case
  proof (cases ok)
    case False
    then show ?thesis
      using Cons.prems po by auto
  next
    case True
    obtain n2 h2 evs2 where r: "tx_spec p m mq xs (fifo_write p x h1) = (n2, h2, evs2)"
      by (cases "tx_spec p m mq xs (fifo_write p x h1)")
    have e: "n = Suc n2" "evs = pe @ [EvKfifoOut mq sizeof_msg, EvFifoWrite m x] @ evs2"
      using Cons.prems po True r by simp_all
    show ?thesis
      using Cons.IH [OF r] pe unfolding e by auto
  qed
qed

text \<open>
  Claim C7. On a channel whose transmit queue is allocated and holds whole messages,
  \<^verbatim>\<open>mbox_tx_tasklet\<close> returns, and what it does is \<open>tx_spec\<close> on the queued messages: while
  a message is queued it polls the hardware for space; when the poll gives up (the hardware
  FIFO is full) it enables the TX interrupt and stops, the messages not yet written still
  queued; otherwise it dequeues exactly one message and writes that message to the hardware
  FIFO. The hardware, the queue and the trace at the end are those of \<open>tx_spec\<close>, and
  nothing else changes. Either every message was written, the queue is empty and the TX
  interrupt was not touched, or the last thing done is the enabling of the TX interrupt.
\<close>

theorem C7_tx_tasklet:
  assumes "txq (mem s m) = Some mq" and "queues s mq = Some q"
    and "length (kf_data (fifo q)) mod sizeof_msg = 0"
  shows "mbox_tx_tasklet m msg0 s =
     Some (case tx_spec (ops (mem s m)) m mq (queue_msgs (kf_data (fifo q))) (hw s) of
             (n, h, evs) \<Rightarrow>
               s\<lparr>queues := (queues s)(mq \<mapsto>
                    q\<lparr>fifo := (fifo q)\<lparr>kf_data := drop (sizeof_msg * n) (kf_data (fifo q))\<rparr>\<rparr>),
                 hw := h, trace := trace s @ evs\<rparr>) \<and>
     (case tx_spec (ops (mem s m)) m mq (queue_msgs (kf_data (fifo q))) (hw s) of
        (n, h, evs) \<Rightarrow>
          n = length (queue_msgs (kf_data (fifo q))) \<and>
            drop (sizeof_msg * n) (kf_data (fifo q)) = [] \<and> EvEnableIrq m IRQ_TX \<notin> set evs \<or>
          n < length (queue_msgs (kf_data (fifo q))) \<and>
            queue_msgs (drop (sizeof_msg * n) (kf_data (fifo q)))
              = drop n (queue_msgs (kf_data (fifo q))) \<and>
            evs \<noteq> [] \<and> last evs = EvEnableIrq m IRQ_TX)"
proof -
  obtain n h evs where
    r: "tx_spec (ops (mem s m)) m mq (queue_msgs (kf_data (fifo q))) (hw s) = (n, h, evs)"
    by (cases "tx_spec (ops (mem s m)) m mq (queue_msgs (kf_data (fifo q))) (hw s)")
  have t: "mbox_tx_tasklet m msg0 s = Some (tx_loop m mq msg0 s)"
    using assms(1,2) by (simp add: mbox_tx_tasklet_def)
  have len: "sizeof_msg * length (queue_msgs (kf_data (fifo q))) = length (kf_data (fifo q))"
    using assms(3) mult_div_mod_eq [of sizeof_msg "length (kf_data (fifo q))"]
    by (simp add: length_queue_msgs)
  have dq: "queue_msgs (drop (sizeof_msg * k) bs) = drop k (queue_msgs bs)" for k bs
  proof (induction k arbitrary: bs)
    case 0
    then show ?case by simp
  next
    case (Suc k)
    show ?case
    proof (cases bs rule: msgs_cases)
      case 1
      then show ?thesis by simp
    next
      case (2 a b c d rest)
      have "drop (sizeof_msg * Suc k) bs = drop (sizeof_msg * k) (drop sizeof_msg bs)"
        by (simp add: add.commute)
      also have "drop sizeof_msg bs = rest"
        using 2 by (simp add: sizeof_msg_def)
      finally show ?thesis
        using Suc.IH [of rest] 2 by simp
    qed
  qed
  have "n = length (queue_msgs (kf_data (fifo q))) \<and>
      drop (sizeof_msg * n) (kf_data (fifo q)) = [] \<and> EvEnableIrq m IRQ_TX \<notin> set evs \<or>
    n < length (queue_msgs (kf_data (fifo q))) \<and>
      queue_msgs (drop (sizeof_msg * n) (kf_data (fifo q))) = drop n (queue_msgs (kf_data (fifo q))) \<and>
      evs \<noteq> [] \<and> last evs = EvEnableIrq m IRQ_TX"
    using tx_spec_end [OF r] len dq by auto
  then show ?thesis
    unfolding t tx_loop_spec [OF assms(2,3)] r by simp
qed

theorem C7_tx_tasklet_witness:
  "mbox_tx_tasklet 0 0
     (sim_open (demo_queue 16 [1, 0, 0, 0, 2, 0, 0, 0, 3, 0, 0, 0]) (demo_queue 16 [])
        (sim_hw0\<lparr>tx_room := 2\<rparr>))
   = Some ((sim_open (demo_queue 16 [1, 0, 0, 0, 2, 0, 0, 0, 3, 0, 0, 0]) (demo_queue 16 [])
              (sim_hw0\<lparr>tx_room := 2\<rparr>))
       \<lparr>queues := [0 \<mapsto> demo_queue 16 [3, 0, 0, 0], 1 \<mapsto> demo_queue 16 []],
        hw := \<lparr>rx_pending = [], tx_room = 0, tx_sent = [1, 2], oplog = [OpEnable 0 IRQ_TX]\<rparr>,
        trace := [EvFifoFull 0 False, EvKfifoOut 0 4, EvFifoWrite 0 1,
                  EvFifoFull 0 False, EvKfifoOut 0 4, EvFifoWrite 0 2,
                  EvFifoFull 0 True, EvEnableIrq 0 IRQ_TX]\<rparr>)"
proof -
  let ?q = "demo_queue 16 [1, 0, 0, 0, 2, 0, 0, 0, 3, 0, 0, 0]"
  let ?s = "sim_open ?q (demo_queue 16 []) (sim_hw0\<lparr>tx_room := 2\<rparr>)"
  have a: "txq (mem ?s 0) = Some 0" and b: "queues ?s 0 = Some ?q"
    and c: "length (kf_data (fifo ?q)) mod sizeof_msg = 0"
    by (simp_all add: sim_defs sizeof_msg_def)
  have m: "queue_msgs (kf_data (fifo ?q)) = [1, 2, 3]"
    by (simp add: sim_defs bytes_msg_def)
  have t2: "ops_type (ops (mem ?s 0)) = OMAP_MBOX_TYPE2"
    by (simp add: sim_defs)
  have sp: "tx_spec (ops (mem ?s 0)) 0 0 [1, 2, 3] (hw ?s) =
      (2, \<lparr>rx_pending = [], tx_room = 0, tx_sent = [1, 2], oplog = [OpEnable 0 IRQ_TX]\<rparr>,
       [EvFifoFull 0 False, EvKfifoOut 0 4, EvFifoWrite 0 1,
        EvFifoFull 0 False, EvKfifoOut 0 4, EvFifoWrite 0 2,
        EvFifoFull 0 True, EvEnableIrq 0 IRQ_TX])"
    by (simp add: poll_spec_type2 sim_defs sizeof_msg_def)
  show ?thesis
    using C7_tx_tasklet [OF a b c, of 0] unfolding m sp
    by (simp add: sim_defs sizeof_msg_def fun_upd_twist)
qed

section \<open>Deferred receive task\<close>

text \<open>
  The events of a run of the receive work over the queued messages \<open>xs\<close>, for the notifier
  chain \<open>obs\<close> and the full flag \<open>fl\<close> at entry: each message is dequeued and passed to
  every block of the chain in order; then, under the queue lock, a set full flag is cleared
  and the RX interrupt enabled.
\<close>

fun rx_work_events :: "nat \<Rightarrow> nat \<Rightarrow> nat list \<Rightarrow> bool \<Rightarrow> mbox_msg_t list \<Rightarrow> event list" where
  "rx_work_events m mq obs fl [] = []"
| "rx_work_events m mq obs fl (x # xs) =
     [EvKfifoOut mq sizeof_msg] @ map (\<lambda>nb. EvNotify m nb sizeof_msg x) obs @
     [EvLock mq] @ (if fl then [EvEnableIrq m IRQ_RX] else []) @ [EvUnlock mq] @
     rx_work_events m mq obs False xs"

lemma rx_work_loop_done:
  "\<not> sizeof_msg \<le> kfifo_len (fifo (queue_at s mq)) \<Longrightarrow> rx_work_loop m mq s = s"
  by (subst rx_work_loop.simps) simp

lemma rx_work_loop_step:
  assumes "queues s mq = Some q" and "kf_data (fifo q) = a # b # c # d # rest"
  shows "rx_work_loop m mq s =
     rx_work_loop m mq
       (s\<lparr>queues := (queues s)(mq \<mapsto> q\<lparr>fifo := (fifo q)\<lparr>kf_data := rest\<rparr>, full := False\<rparr>),
          hw := (if full q then enable_irq (ops (mem s m)) IRQ_RX (hw s) else hw s),
          trace := trace s @ rx_work_events m mq (notifier (mem s m)) (full q)
                               [bytes_msg [a, b, c, d]]\<rparr>)"
proof -
  have ge: "sizeof_msg \<le> kfifo_len (fifo (queue_at s mq))"
    using assms by (simp add: queue_at_def kfifo_len_def sizeof_msg_def)
  have o: "q_kfifo_out mq sizeof_msg s =
     ([a, b, c, d],
      emit (EvKfifoOut mq sizeof_msg)
        (s\<lparr>queues := (queues s)(mq \<mapsto> q\<lparr>fifo := (fifo q)\<lparr>kf_data := rest\<rparr>\<rparr>)\<rparr>))"
    using assms by (rule kfifo_out_one)
  show ?thesis
  proof (cases "full q")
    case True
    then show ?thesis
      using ge o
      by (subst rx_work_loop.simps)
        (simp add: WARN_ON_def blocking_notifier_call_chain_def spin_lock_def spin_unlock_def
          omap_mbox_enable_irq_def queue_upd_def queue_at_def emit_def four_bytes Let_def)
  next
    case False
    then have eq: "q\<lparr>fifo := (fifo q)\<lparr>kf_data := rest\<rparr>, full := False\<rparr>
        = q\<lparr>fifo := (fifo q)\<lparr>kf_data := rest\<rparr>\<rparr>"
      by simp
    show ?thesis
      using ge o False
      by (subst rx_work_loop.simps)
        (simp add: WARN_ON_def blocking_notifier_call_chain_def spin_lock_def spin_unlock_def
          omap_mbox_enable_irq_def queue_upd_def queue_at_def emit_def four_bytes Let_def eq)
  qed
qed

lemma rx_work_loop_run:
  assumes "queues s mq = Some q"
  shows "rx_work_loop m mq s =
     s\<lparr>queues := (queues s)(mq \<mapsto>
          q\<lparr>fifo := (fifo q)\<lparr>kf_data :=
               drop (sizeof_msg * length (queue_msgs (kf_data (fifo q)))) (kf_data (fifo q))\<rparr>,
            full := full q \<and> queue_msgs (kf_data (fifo q)) = []\<rparr>),
       hw := (if full q \<and> queue_msgs (kf_data (fifo q)) \<noteq> []
              then enable_irq (ops (mem s m)) IRQ_RX (hw s) else hw s),
       trace := trace s @ rx_work_events m mq (notifier (mem s m)) (full q)
                            (queue_msgs (kf_data (fifo q)))\<rparr>"
  using assms
proof (induction "length (kf_data (fifo q))" arbitrary: s q rule: less_induct)
  case less
  show ?case
  proof (cases "kf_data (fifo q)" rule: msgs_cases)
    case 1
    then have "rx_work_loop m mq s = s"
      using less.prems by (simp add: rx_work_loop_done queue_at_def kfifo_len_def)
    moreover have "q\<lparr>fifo := (fifo q)\<lparr>kf_data := kf_data (fifo q)\<rparr>, full := full q\<rparr> = q"
      by simp
    ultimately show ?thesis
      using 1 less.prems by (simp add: map_upd_triv)
  next
    case (2 a b c d rest)
    let ?x = "bytes_msg [a, b, c, d]"
    let ?q1 = "q\<lparr>fifo := (fifo q)\<lparr>kf_data := rest\<rparr>, full := False\<rparr>"
    let ?s1 = "s\<lparr>queues := (queues s)(mq \<mapsto> ?q1),
          hw := (if full q then enable_irq (ops (mem s m)) IRQ_RX (hw s) else hw s),
          trace := trace s @ rx_work_events m mq (notifier (mem s m)) (full q) [?x]\<rparr>"
    have step: "rx_work_loop m mq s = rx_work_loop m mq ?s1"
      using less.prems 2 by (rule rx_work_loop_step)
    have q1: "queues ?s1 mq = Some ?q1"
      by simp
    have sh: "length (kf_data (fifo ?q1)) < length (kf_data (fifo q))"
      using 2 by simp
    have msgs: "queue_msgs (kf_data (fifo q)) = ?x # queue_msgs rest"
      using 2 by simp
    have dr: "drop (sizeof_msg + sizeof_msg * length (queue_msgs rest)) (kf_data (fifo q))
        = drop (sizeof_msg * length (queue_msgs rest)) rest"
    proof -
      have "drop (sizeof_msg + sizeof_msg * length (queue_msgs rest)) (kf_data (fifo q))
          = drop (sizeof_msg * length (queue_msgs rest)) (drop sizeof_msg (kf_data (fifo q)))"
        by (simp add: add.commute)
      also have "drop sizeof_msg (kf_data (fifo q)) = rest"
        using 2 by (simp add: sizeof_msg_def)
      finally show ?thesis .
    qed
    have ih: "rx_work_loop m mq ?s1 =
       ?s1\<lparr>queues := (queues ?s1)(mq \<mapsto>
            ?q1\<lparr>fifo := (fifo ?q1)\<lparr>kf_data :=
                 drop (sizeof_msg * length (queue_msgs (kf_data (fifo ?q1)))) (kf_data (fifo ?q1))\<rparr>,
              full := full ?q1 \<and> queue_msgs (kf_data (fifo ?q1)) = []\<rparr>),
         hw := (if full ?q1 \<and> queue_msgs (kf_data (fifo ?q1)) \<noteq> []
                then enable_irq (ops (mem ?s1 m)) IRQ_RX (hw ?s1) else hw ?s1),
         trace := trace ?s1 @ rx_work_events m mq (notifier (mem ?s1 m)) (full ?q1)
                              (queue_msgs (kf_data (fifo ?q1)))\<rparr>"
      using sh q1 by (rule less.hyps)
    show ?thesis
      unfolding step ih msgs by (simp add: dr)
  qed
qed

lemma queue_msgs_rest: "length (drop (sizeof_msg * length (queue_msgs bs)) bs) < sizeof_msg"
  using mult_div_mod_eq [of sizeof_msg "length bs"]
  by (simp add: length_queue_msgs sizeof_msg_def)

text \<open>
  Claim C6. On a live receive queue that points back to its channel, \<^verbatim>\<open>mbox_rx_work\<close>
  returns, and its events are exactly \<open>rx_work_events\<close> for the messages queued at entry:
  every message is dequeued and dispatched to every block of the notifier chain in chain
  order, which is registration order (a newly registered block comes last); after the first
  dispatch a set full flag is cleared and the RX interrupt enabled, under the queue lock.
  At the end the queue holds less than one message, and the full flag is set only if it
  was set and nothing was dispatched.
\<close>

theorem C6_rx_work:
  assumes "queues s mq = Some q" and "q_mbox q = Some m"
  shows "\<exists>s'. mbox_rx_work mq s = Some s' \<and>
     new_events s s'
       = rx_work_events m mq (notifier (mem s m)) (full q) (queue_msgs (kf_data (fifo q))) \<and>
     kfifo_len (fifo (queue_at s' mq)) < sizeof_msg \<and>
     (full (queue_at s' mq) \<longleftrightarrow> full q \<and> queue_msgs (kf_data (fifo q)) = []) \<and>
     hw s' = (if full q \<and> queue_msgs (kf_data (fifo q)) \<noteq> []
              then enable_irq (ops (mem s m)) IRQ_RX (hw s) else hw s) \<and>
     same_ctl s s' \<and>
     notifier (mem (blocking_notifier_chain_register m nb s) m) = notifier (mem s m) @ [nb]"
proof -
  let ?s' = "rx_work_loop m mq s"
  note run = rx_work_loop_run [OF assms(1), of m]
  have w: "mbox_rx_work mq s = Some ?s'"
    using assms by (simp add: mbox_rx_work_def)
  have t: "trace ?s' = trace s
      @ rx_work_events m mq (notifier (mem s m)) (full q) (queue_msgs (kf_data (fifo q)))"
    unfolding run by simp
  have l: "kfifo_len (fifo (queue_at ?s' mq)) < sizeof_msg"
    unfolding run using queue_msgs_rest [of "kf_data (fifo q)"]
    by (simp add: queue_at_def kfifo_len_def)
  have f: "full (queue_at ?s' mq) \<longleftrightarrow> full q \<and> queue_msgs (kf_data (fifo q)) = []"
    unfolding run by (simp add: queue_at_def)
  have h: "hw ?s' = (if full q \<and> queue_msgs (kf_data (fifo q)) \<noteq> []
              then enable_irq (ops (mem s m)) IRQ_RX (hw s) else hw s)"
    unfolding run by simp
  have c: "same_ctl s ?s'"
    unfolding run by (simp add: same_ctl_def)
  have n: "notifier (mem (blocking_notifier_chain_register m nb s) m) = notifier (mem s m) @ [nb]"
    by (simp add: blocking_notifier_chain_register_def mbox_upd_def)
  show ?thesis
    using w new_events_append [OF t] l f h c n by simp
qed

theorem C6_rx_work_witness:
  "\<exists>s'. mbox_rx_work 1 demo_rx_pending = Some s' \<and>
     trace s' = [EvKfifoOut 1 4, EvNotify 0 5 4 1, EvNotify 0 9 4 1,
                 EvLock 1, EvEnableIrq 0 IRQ_RX, EvUnlock 1,
                 EvKfifoOut 1 4, EvNotify 0 5 4 2, EvNotify 0 9 4 2,
                 EvLock 1, EvUnlock 1] \<and>
     kfifo_len (fifo (queue_at s' 1)) < sizeof_msg \<and>
     \<not> full (queue_at s' 1)"
proof -
  let ?q = "(demo_queue 8 [1, 0, 0, 0, 2, 0, 0, 0])\<lparr>full := True\<rparr>"
  have a: "queues demo_rx_pending 1 = Some ?q"
    by (simp add: demo_rx_pending_def demo_defs)
  have b: "q_mbox ?q = Some 0"
    by (simp add: demo_defs)
  have m: "queue_msgs (kf_data (fifo ?q)) = [1, 2]"
    by (simp add: demo_defs bytes_msg_def)
  have o: "notifier (mem demo_rx_pending 0) = [5, 9]" "full ?q" "trace demo_rx_pending = []"
    by (simp_all add: demo_rx_pending_def demo_defs)
  from C6_rx_work [OF a b, of 0] obtain s' where
    r: "mbox_rx_work 1 demo_rx_pending = Some s'"
      "new_events demo_rx_pending s'
         = rx_work_events 0 1 (notifier (mem demo_rx_pending 0)) (full ?q)
             (queue_msgs (kf_data (fifo ?q)))"
      "kfifo_len (fifo (queue_at s' 1)) < sizeof_msg"
      "full (queue_at s' 1) \<longleftrightarrow> full ?q \<and> queue_msgs (kf_data (fifo ?q)) = []"
    by (elim exE conjE)
  have "trace s' = [EvKfifoOut 1 4, EvNotify 0 5 4 1, EvNotify 0 9 4 1,
                 EvLock 1, EvEnableIrq 0 IRQ_RX, EvUnlock 1,
                 EvKfifoOut 1 4, EvNotify 0 5 4 2, EvNotify 0 9 4 2,
                 EvLock 1, EvUnlock 1]"
    using r(2) unfolding m o(1) by (simp add: new_events_def o sizeof_msg_def)
  moreover have "\<not> full (queue_at s' 1)"
    using r(4) m by simp
  ultimately show ?thesis
    using r(1,3) by simp
qed

section \<open>Receive interrupt\<close>

text \<open>The three ways through one round of the drain loop, and one copy into the queue.\<close>

lemma rx_irq_loop_empty:
  "mbox_fifo_empty m s = (True, s1) \<Longrightarrow> rx_irq_loop m mq s = (False, s1)"
  by (subst rx_irq_loop.simps) simp

lemma rx_irq_loop_nomem:
  "mbox_fifo_empty m s = (False, s1) \<Longrightarrow> kfifo_avail (fifo (queue_at s1 mq)) < sizeof_msg \<Longrightarrow>
     rx_irq_loop m mq s =
       (True, queue_upd mq (\<lambda>q. q\<lparr>full := True\<rparr>) (omap_mbox_disable_irq m IRQ_RX s1))"
  by (subst rx_irq_loop.simps) simp

lemma rx_irq_loop_read:
  "mbox_fifo_empty m s = (False, s1) \<Longrightarrow> \<not> kfifo_avail (fifo (queue_at s1 mq)) < sizeof_msg \<Longrightarrow>
     mbox_fifo_read m s1 = (x, s2) \<Longrightarrow> q_kfifo_in mq (msg_bytes x) s2 = (len, s3) \<Longrightarrow>
     rx_irq_loop m mq s =
       (if ops_type (ops (mem (WARN_ON (len \<noteq> sizeof_msg) s3) m)) = OMAP_MBOX_TYPE1
        then (False, WARN_ON (len \<noteq> sizeof_msg) s3)
        else rx_irq_loop m mq (WARN_ON (len \<noteq> sizeof_msg) s3))"
  by (subst rx_irq_loop.simps) (simp add: Let_def)

lemma kfifo_in_one:
  assumes "queues s mq = Some q" and "sizeof_msg \<le> kfifo_avail (fifo q)"
  shows "q_kfifo_in mq (msg_bytes x) s =
     (sizeof_msg,
      emit (EvKfifoIn mq sizeof_msg)
        (s\<lparr>queues := (queues s)(mq \<mapsto>
             q\<lparr>fifo := (fifo q)\<lparr>kf_data := kf_data (fifo q) @ msg_bytes x\<rparr>\<rparr>)\<rparr>))"
proof -
  have "min (length (msg_bytes x)) (kfifo_avail (fifo q)) = sizeof_msg"
    using assms(2) by (simp add: length_msg_bytes)
  moreover have "take sizeof_msg (msg_bytes x) = msg_bytes x"
    by (simp add: length_msg_bytes)
  ultimately show ?thesis
    using assms(1)
    by (simp add: q_kfifo_in_def kfifo_in_def queue_at_def queue_upd_def Let_def)
qed

definition ack_events :: "'h omap_mbox_ops \<Rightarrow> nat \<Rightarrow> event list" where
  "ack_events hops m = (case ack_irq hops of None \<Rightarrow> [] | Some f \<Rightarrow> [EvAckIrq m IRQ_RX])"

text \<open>
  What the drain loop of \<^verbatim>\<open>__mbox_rx_interrupt\<close> does to the hardware when the queue has
  room for \<open>room\<close> more messages. While the hardware reports a pending message: without room
  it disables the RX interrupt and stops by \<^verbatim>\<open>goto nomem\<close>; with room it reads one message,
  which goes into the queue, and on a type-1 mailbox it stops after that one message. The
  result is the messages read, whether the loop was left by \<^verbatim>\<open>goto nomem\<close>, the hardware
  at the end and the events. \<open>ack_hw\<close> is the acknowledgement of the RX interrupt, on
  hardware that has an acknowledge callback.
\<close>

fun rx_drain ::
  "'h omap_mbox_ops \<Rightarrow> nat \<Rightarrow> nat \<Rightarrow> nat \<Rightarrow> 'h \<Rightarrow> mbox_msg_t list \<times> bool \<times> 'h \<times> event list" where
  "rx_drain p m mq 0 h =
     (case fifo_empty p h of
        (e, h1) \<Rightarrow>
          if e then ([], False, h1, [EvFifoEmpty m True])
          else ([], True, disable_irq p IRQ_RX h1, [EvFifoEmpty m False, EvDisableIrq m IRQ_RX]))"
| "rx_drain p m mq (Suc room) h =
     (case fifo_empty p h of
        (e, h1) \<Rightarrow>
          if e then ([], False, h1, [EvFifoEmpty m True])
          else
            (case fifo_read p h1 of
               (x, h2) \<Rightarrow>
                 if ops_type p = OMAP_MBOX_TYPE1
                 then ([x], False, h2,
                       [EvFifoEmpty m False, EvFifoRead m x, EvKfifoIn mq sizeof_msg])
                 else
                   (case rx_drain p m mq room h2 of
                      (xs, nomem, h3, evs) \<Rightarrow>
                        (x # xs, nomem, h3,
                         [EvFifoEmpty m False, EvFifoRead m x, EvKfifoIn mq sizeof_msg] @ evs))))"

definition ack_hw :: "'h omap_mbox_ops \<Rightarrow> 'h \<Rightarrow> 'h" where
  "ack_hw p h = (case ack_irq p of None \<Rightarrow> h | Some f \<Rightarrow> f IRQ_RX h)"

lemma rx_irq_loop_spec:
  assumes "queues s mq = Some q"
  shows "rx_irq_loop m mq s =
     (case rx_drain (ops (mem s m)) m mq (kfifo_avail (fifo q) div sizeof_msg) (hw s) of
        (xs, nomem, h, evs) \<Rightarrow>
          (nomem,
           s\<lparr>queues := (queues s)(mq \<mapsto>
                q\<lparr>fifo := (fifo q)\<lparr>kf_data := kf_data (fifo q) @ concat (map msg_bytes xs)\<rparr>,
                  full := full q \<or> nomem\<rparr>),
             hw := h, trace := trace s @ evs\<rparr>))"
  using assms
proof (induction "kfifo_avail (fifo q)" arbitrary: s q rule: less_induct)
  case less
  let ?p = "ops (mem s m)"
  let ?room = "kfifo_avail (fifo q) div sizeof_msg"
  obtain e h1 where fe: "fifo_empty ?p (hw s) = (e, h1)"
    by (cases "fifo_empty ?p (hw s)")
  have triv: "q\<lparr>fifo := (fifo q)\<lparr>kf_data := kf_data (fifo q)\<rparr>, full := full q\<rparr> = q"
    by simp
  show ?case
  proof (cases e)
    case True
    let ?s1 = "s\<lparr>hw := h1, trace := trace s @ [EvFifoEmpty m True]\<rparr>"
    have e1: "mbox_fifo_empty m s = (True, ?s1)"
      using fe True by (simp add: mbox_fifo_empty_def emit_def)
    have l: "rx_irq_loop m mq s = (False, ?s1)"
      using e1 by (rule rx_irq_loop_empty)
    have d: "rx_drain ?p m mq ?room (hw s) = ([], False, h1, [EvFifoEmpty m True])"
      using fe True by (cases ?room) simp_all
    show ?thesis
      unfolding l d using less.prems triv by (simp add: map_upd_triv)
  next
    case False
    let ?s1 = "s\<lparr>hw := h1, trace := trace s @ [EvFifoEmpty m False]\<rparr>"
    have e1: "mbox_fifo_empty m s = (False, ?s1)"
      using fe False by (simp add: mbox_fifo_empty_def emit_def)
    have qa1: "queue_at ?s1 mq = q"
      using less.prems by (simp add: queue_at_def)
    show ?thesis
    proof (cases "kfifo_avail (fifo q) < sizeof_msg")
      case True
      let ?s2 = "s\<lparr>queues := (queues s)(mq \<mapsto> q\<lparr>full := True\<rparr>),
          hw := disable_irq ?p IRQ_RX h1,
          trace := trace s @ [EvFifoEmpty m False, EvDisableIrq m IRQ_RX]\<rparr>"
      have "rx_irq_loop m mq s
          = (True, queue_upd mq (\<lambda>q. q\<lparr>full := True\<rparr>) (omap_mbox_disable_irq m IRQ_RX ?s1))"
        using e1 True qa1 by (simp add: rx_irq_loop_nomem)
      also have "queue_upd mq (\<lambda>q. q\<lparr>full := True\<rparr>) (omap_mbox_disable_irq m IRQ_RX ?s1) = ?s2"
        using less.prems
        by (simp add: queue_upd_def omap_mbox_disable_irq_def emit_def queue_at_def)
      finally have l: "rx_irq_loop m mq s = (True, ?s2)" .
      have "?room = 0"
        using True by simp
      then have d: "rx_drain ?p m mq ?room (hw s)
          = ([], True, disable_irq ?p IRQ_RX h1, [EvFifoEmpty m False, EvDisableIrq m IRQ_RX])"
        using fe False by simp
      have "q\<lparr>fifo := (fifo q)\<lparr>kf_data := kf_data (fifo q)\<rparr>, full := True\<rparr> = q\<lparr>full := True\<rparr>"
        by simp
      then show ?thesis
        unfolding l d by simp
    next
      case False
      note av = this
      obtain room where room: "?room = Suc room"
        using av by (cases ?room) (auto simp: sizeof_msg_def)
      obtain x h2 where fr: "fifo_read ?p h1 = (x, h2)"
        by (cases "fifo_read ?p h1")
      let ?s2 = "s\<lparr>hw := h2, trace := trace s @ [EvFifoEmpty m False, EvFifoRead m x]\<rparr>"
      let ?q3 = "q\<lparr>fifo := (fifo q)\<lparr>kf_data := kf_data (fifo q) @ msg_bytes x\<rparr>\<rparr>"
      let ?s3 = "s\<lparr>queues := (queues s)(mq \<mapsto> ?q3), hw := h2,
          trace := trace s @ [EvFifoEmpty m False, EvFifoRead m x, EvKfifoIn mq sizeof_msg]\<rparr>"
      have r2: "mbox_fifo_read m ?s1 = (x, ?s2)"
        using fr by (simp add: mbox_fifo_read_def emit_def)
      have "q_kfifo_in mq (msg_bytes x) ?s2 =
          (sizeof_msg, emit (EvKfifoIn mq sizeof_msg) (?s2\<lparr>queues := (queues ?s2)(mq \<mapsto> ?q3)\<rparr>))"
        using less.prems av by (intro kfifo_in_one) simp_all
      also have "emit (EvKfifoIn mq sizeof_msg) (?s2\<lparr>queues := (queues ?s2)(mq \<mapsto> ?q3)\<rparr>) = ?s3"
        by (simp add: emit_def)
      finally have i3: "q_kfifo_in mq (msg_bytes x) ?s2 = (sizeof_msg, ?s3)" .
      have w: "WARN_ON (sizeof_msg \<noteq> sizeof_msg) ?s3 = ?s3"
        by (simp add: WARN_ON_def)
      have l: "rx_irq_loop m mq s =
          (if ops_type ?p = OMAP_MBOX_TYPE1 then (False, ?s3) else rx_irq_loop m mq ?s3)"
        using rx_irq_loop_read [OF e1 _ r2 i3] av qa1
        unfolding w by simp
      have av3: "kfifo_avail (fifo ?q3) = kfifo_avail (fifo q) - sizeof_msg"
        by (simp add: kfifo_avail_def kfifo_len_def length_msg_bytes)
      have room3: "kfifo_avail (fifo ?q3) div sizeof_msg = room"
        unfolding av3 using room av by (simp add: sizeof_msg_def)
      show ?thesis
      proof (cases "ops_type ?p = OMAP_MBOX_TYPE1")
        case True
        have d: "rx_drain ?p m mq ?room (hw s)
            = ([x], False, h2, [EvFifoEmpty m False, EvFifoRead m x, EvKfifoIn mq sizeof_msg])"
          unfolding room using fe \<open>\<not> e\<close> fr True by simp
        show ?thesis
          unfolding d using l True by simp
      next
        case False
        have "kfifo_avail (fifo ?q3) < kfifo_avail (fifo q)"
          using av av3 by (simp add: sizeof_msg_def)
        moreover have "queues ?s3 mq = Some ?q3"
          by simp
        ultimately have ih: "rx_irq_loop m mq ?s3 =
           (case rx_drain (ops (mem ?s3 m)) m mq (kfifo_avail (fifo ?q3) div sizeof_msg) (hw ?s3) of
              (xs, nomem, h, evs) \<Rightarrow>
                (nomem,
                 ?s3\<lparr>queues := (queues ?s3)(mq \<mapsto>
                      ?q3\<lparr>fifo := (fifo ?q3)\<lparr>kf_data := kf_data (fifo ?q3) @ concat (map msg_bytes xs)\<rparr>,
                        full := full ?q3 \<or> nomem\<rparr>),
                   hw := h, trace := trace ?s3 @ evs\<rparr>))"
          by (rule less.hyps)
        obtain xs nomem h3 evs where r: "rx_drain ?p m mq room h2 = (xs, nomem, h3, evs)"
          by (cases "rx_drain ?p m mq room h2")
        have d: "rx_drain ?p m mq ?room (hw s)
            = (x # xs, nomem, h3,
               [EvFifoEmpty m False, EvFifoRead m x, EvKfifoIn mq sizeof_msg] @ evs)"
          unfolding room using fe \<open>\<not> e\<close> fr False r by simp
        have ih2: "rx_irq_loop m mq ?s3 =
            (nomem,
             s\<lparr>queues := (queues s)(mq \<mapsto>
                  q\<lparr>fifo := (fifo q)\<lparr>kf_data := kf_data (fifo q) @ msg_bytes x
                       @ concat (map msg_bytes xs)\<rparr>,
                    full := full q \<or> nomem\<rparr>),
               hw := h3,
               trace := trace s @ [EvFifoEmpty m False, EvFifoRead m x, EvKfifoIn mq sizeof_msg]
                 @ evs\<rparr>)"
          using ih [unfolded room3] r by simp
        show ?thesis
          unfolding d using l False ih2 by simp
      qed
    qed
  qed
qed

lemma rx_drain_count:
  "rx_drain p m mq room h = (xs, nomem, h', evs) \<Longrightarrow>
     length xs \<le> room \<and> (nomem \<longrightarrow> length xs = room) \<and>
     (ops_type p = OMAP_MBOX_TYPE1 \<longrightarrow> length xs \<le> 1)"
proof (induction room arbitrary: h xs nomem h' evs)
  case 0
  then show ?case
    by (auto split: prod.splits if_splits)
next
  case (Suc room)
  obtain e h1 where fe: "fifo_empty p h = (e, h1)"
    by (cases "fifo_empty p h")
  obtain x h2 where fr: "fifo_read p h1 = (x, h2)"
    by (cases "fifo_read p h1")
  obtain xs2 nomem2 h3 evs2 where r: "rx_drain p m mq room h2 = (xs2, nomem2, h3, evs2)"
    by (cases "rx_drain p m mq room h2")
  show ?case
  proof (cases "e \<or> ops_type p = OMAP_MBOX_TYPE1")
    case True
    then show ?thesis
      using Suc.prems fe fr by (auto split: if_splits)
  next
    case False
    then have "xs = x # xs2" "nomem = nomem2"
      using Suc.prems fe fr r by simp_all
    then show ?thesis
      using Suc.IH [OF r] False by simp
  qed
qed

text \<open>
  Claim C5, as amended. On a channel whose receive queue is allocated,
  \<^verbatim>\<open>__mbox_rx_interrupt\<close> returns, and what it does is the drain \<open>rx_drain\<close> followed by the
  scheduling of the receive work. While the hardware reports a pending message: if the queue
  lacks room for one message, the handler disables the RX interrupt, sets the full flag and
  stops, having read nothing more, and it does not acknowledge; otherwise it reads one
  message from the hardware and appends it to the queue, and goes on (on a type-1 mailbox it
  stops after one message). When the drain ends because the hardware reports no pending
  message, or after the one message of a type-1 mailbox, the full flag stays as it was and
  the handler acknowledges the RX interrupt, where the hardware has an acknowledge callback.
  The queue, the flag, the hardware and the trace at the end are exactly these, and nothing
  else changes.
\<close>

theorem C5_rx_interrupt:
  assumes "rxq (mem s m) = Some mq" and "queues s mq = Some q"
  shows "mbox_rx_interrupt m s =
     Some (case rx_drain (ops (mem s m)) m mq (kfifo_avail (fifo q) div sizeof_msg) (hw s) of
             (xs, nomem, h, evs) \<Rightarrow>
               s\<lparr>queues := (queues s)(mq \<mapsto>
                    q\<lparr>fifo := (fifo q)\<lparr>kf_data := kf_data (fifo q) @ concat (map msg_bytes xs)\<rparr>,
                      full := full q \<or> nomem\<rparr>),
                 hw := (if nomem then h else ack_hw (ops (mem s m)) h),
                 trace := trace s @ evs @ (if nomem then [] else ack_events (ops (mem s m)) m)
                            @ [EvScheduleWork mq]\<rparr>) \<and>
     (case rx_drain (ops (mem s m)) m mq (kfifo_avail (fifo q) div sizeof_msg) (hw s) of
        (xs, nomem, h, evs) \<Rightarrow>
          sizeof_msg * length xs \<le> kfifo_avail (fifo q) \<and>
          (nomem \<longrightarrow> kfifo_avail (fifo q) - sizeof_msg * length xs < sizeof_msg) \<and>
          (ops_type (ops (mem s m)) = OMAP_MBOX_TYPE1 \<longrightarrow> length xs \<le> 1))"
proof -
  let ?p = "ops (mem s m)"
  let ?room = "kfifo_avail (fifo q) div sizeof_msg"
  obtain xs nomem h evs where r: "rx_drain ?p m mq ?room (hw s) = (xs, nomem, h, evs)"
    by (cases "rx_drain ?p m mq ?room (hw s)")
  note l = rx_irq_loop_spec [OF assms(2), of m, unfolded r, simplified]
  have i: "mbox_rx_interrupt m s =
      Some (s\<lparr>queues := (queues s)(mq \<mapsto>
                    q\<lparr>fifo := (fifo q)\<lparr>kf_data := kf_data (fifo q) @ concat (map msg_bytes xs)\<rparr>,
                      full := full q \<or> nomem\<rparr>),
                 hw := (if nomem then h else ack_hw ?p h),
                 trace := trace s @ evs @ (if nomem then [] else ack_events ?p m)
                            @ [EvScheduleWork mq]\<rparr>)"
    using assms l
    by (simp add: mbox_rx_interrupt_def schedule_work_def ack_mbox_irq_def ack_hw_def
        ack_events_def emit_def split: option.splits)
  have c: "length xs \<le> ?room" "nomem \<longrightarrow> length xs = ?room"
    "ops_type ?p = OMAP_MBOX_TYPE1 \<longrightarrow> length xs \<le> 1"
    using rx_drain_count [OF r] by simp_all
  have b: "sizeof_msg * length xs \<le> kfifo_avail (fifo q)"
  proof -
    have "sizeof_msg * length xs \<le> sizeof_msg * ?room"
      using c(1) by simp
    also have "\<dots> \<le> kfifo_avail (fifo q)"
      by simp
    finally show ?thesis .
  qed
  have n: "kfifo_avail (fifo q) - sizeof_msg * length xs < sizeof_msg" if nomem
  proof -
    have "kfifo_avail (fifo q) - sizeof_msg * ?room = kfifo_avail (fifo q) mod sizeof_msg"
      by (simp add: minus_mult_div_eq_mod)
    then show ?thesis
      using c(2) that by (simp add: sizeof_msg_def)
  qed
  show ?thesis
    unfolding r using i b n c(3) by simp
qed

theorem C5_rx_interrupt_witness:
  "mbox_rx_interrupt 0
     (sim_open (demo_queue 16 []) (demo_queue 8 []) (sim_hw0\<lparr>rx_pending := [1, 2, 3]\<rparr>))
   = Some ((sim_open (demo_queue 16 []) (demo_queue 8 []) (sim_hw0\<lparr>rx_pending := [1, 2, 3]\<rparr>))
       \<lparr>queues := [0 \<mapsto> demo_queue 16 [],
                   1 \<mapsto> (demo_queue 8 [1, 0, 0, 0, 2, 0, 0, 0])\<lparr>full := True\<rparr>],
        hw := \<lparr>rx_pending = [3], tx_room = 4, tx_sent = [], oplog = [OpDisable 0 IRQ_RX]\<rparr>,
        trace := [EvFifoEmpty 0 False, EvFifoRead 0 1, EvKfifoIn 1 4,
                  EvFifoEmpty 0 False, EvFifoRead 0 2, EvKfifoIn 1 4,
                  EvFifoEmpty 0 False, EvDisableIrq 0 IRQ_RX, EvScheduleWork 1]\<rparr>)"
proof -
  let ?s = "sim_open (demo_queue 16 []) (demo_queue 8 []) (sim_hw0\<lparr>rx_pending := [1, 2, 3]\<rparr>)"
  have a: "rxq (mem ?s 0) = Some 1" and b: "queues ?s 1 = Some (demo_queue 8 [])"
    by (simp_all add: sim_defs)
  have room: "kfifo_avail (fifo (demo_queue 8 [])) div sizeof_msg = Suc (Suc 0)"
    by (simp add: sim_defs kfifo_avail_def kfifo_len_def sizeof_msg_def)
  have d: "rx_drain (ops (mem ?s 0)) 0 1 (Suc (Suc 0)) (hw ?s) =
      ([1, 2], True, \<lparr>rx_pending = [3], tx_room = 4, tx_sent = [], oplog = [OpDisable 0 IRQ_RX]\<rparr>,
       [EvFifoEmpty 0 False, EvFifoRead 0 1, EvKfifoIn 1 4,
        EvFifoEmpty 0 False, EvFifoRead 0 2, EvKfifoIn 1 4,
        EvFifoEmpty 0 False, EvDisableIrq 0 IRQ_RX])"
    by (simp add: sim_defs sizeof_msg_def)
  show ?thesis
    using C5_rx_interrupt [OF a b] unfolding room d
    by (simp add: sim_defs msg_bytes_def fun_upd_twist)
qed

text \<open>
  Claim C5 as stated fails in both halves. A handler that runs with a receive queue without
  room while the hardware reports no pending message neither disables the RX interrupt nor
  sets the full flag, and it acknowledges. A handler that runs with room for one message
  while two are pending reads one, then takes the queue-full path: it ends without an
  acknowledgement.
\<close>

theorem C5_counterexample:
  "kfifo_avail (fifo (demo_queue 4 [9, 0, 0, 0])) < sizeof_msg \<and>
   mbox_rx_interrupt 0 (sim_open (demo_queue 16 []) (demo_queue 4 [9, 0, 0, 0]) sim_hw0)
     = Some ((sim_open (demo_queue 16 []) (demo_queue 4 [9, 0, 0, 0]) sim_hw0)
         \<lparr>hw := sim_hw0\<lparr>oplog := [OpAck 0 IRQ_RX]\<rparr>,
          trace := [EvFifoEmpty 0 True, EvAckIrq 0 IRQ_RX, EvScheduleWork 1]\<rparr>) \<and>
   \<not> kfifo_avail (fifo (demo_queue 4 [])) < sizeof_msg \<and>
   mbox_rx_interrupt 0
       (sim_open (demo_queue 16 []) (demo_queue 4 []) (sim_hw0\<lparr>rx_pending := [5, 6]\<rparr>))
     = Some ((sim_open (demo_queue 16 []) (demo_queue 4 []) (sim_hw0\<lparr>rx_pending := [5, 6]\<rparr>))
         \<lparr>queues := [0 \<mapsto> demo_queue 16 [], 1 \<mapsto> (demo_queue 4 [5, 0, 0, 0])\<lparr>full := True\<rparr>],
          hw := \<lparr>rx_pending = [6], tx_room = 4, tx_sent = [], oplog = [OpDisable 0 IRQ_RX]\<rparr>,
          trace := [EvFifoEmpty 0 False, EvFifoRead 0 5, EvKfifoIn 1 4,
                    EvFifoEmpty 0 False, EvDisableIrq 0 IRQ_RX, EvScheduleWork 1]\<rparr>)"
  by (simp add: mbox_rx_interrupt_def rx_irq_loop.simps mbox_fifo_empty_def mbox_fifo_read_def
      ack_mbox_irq_def q_kfifo_in_def kfifo_in_def kfifo_avail_def kfifo_len_def queue_at_def
      queue_upd_def omap_mbox_disable_irq_def schedule_work_def WARN_ON_def emit_def
      msg_bytes_def sizeof_msg_def sim_defs Let_def fun_upd_twist)

section \<open>Lock scope\<close>

text \<open>
  \<open>under_lock h evs\<close> are the events of \<open>evs\<close> that happen while a queue lock is held,
  \<open>h\<close> telling whether one is held at the start. \<open>lock_discipline\<close> says that no hardware
  callback and no observer is called while a queue lock is held.
\<close>

fun under_lock :: "bool \<Rightarrow> event list \<Rightarrow> event list" where
  "under_lock h [] = []"
| "under_lock h (EvLock qa # es) = under_lock True es"
| "under_lock h (EvUnlock qa # es) = under_lock False es"
| "under_lock h (e # es) = (if h then e # under_lock h es else under_lock h es)"

fun is_hw_access :: "event \<Rightarrow> bool" where
  "is_hw_access (EvStartup m r) = True"
| "is_hw_access (EvShutdown m) = True"
| "is_hw_access (EvFifoRead m x) = True"
| "is_hw_access (EvFifoWrite m x) = True"
| "is_hw_access (EvFifoEmpty m b) = True"
| "is_hw_access (EvFifoFull m b) = True"
| "is_hw_access (EvEnableIrq m i) = True"
| "is_hw_access (EvDisableIrq m i) = True"
| "is_hw_access (EvAckIrq m i) = True"
| "is_hw_access (EvIsIrq m i b) = True"
| "is_hw_access (EvSaveCtx m) = True"
| "is_hw_access (EvRestoreCtx m) = True"
| "is_hw_access e = False"

fun is_notify :: "event \<Rightarrow> bool" where
  "is_notify (EvNotify m nb v x) = True"
| "is_notify e = False"

definition lock_discipline :: "event list \<Rightarrow> bool" where
  "lock_discipline evs = list_all (\<lambda>e. \<not> is_hw_access e \<and> \<not> is_notify e) (under_lock False evs)"

text \<open>The events of one call of each operation (none when the call faults).\<close>

definition send_events :: "nat \<Rightarrow> mbox_msg_t \<Rightarrow> 'h mbox_state \<Rightarrow> event list" where
  "send_events m msg s =
     (case omap_mbox_msg_send m msg s of None \<Rightarrow> [] | Some (r, s') \<Rightarrow> new_events s s')"

definition tasklet_events :: "nat \<Rightarrow> mbox_msg_t \<Rightarrow> 'h mbox_state \<Rightarrow> event list" where
  "tasklet_events m msg0 s =
     (case mbox_tx_tasklet m msg0 s of None \<Rightarrow> [] | Some s' \<Rightarrow> new_events s s')"

definition work_events :: "nat \<Rightarrow> 'h mbox_state \<Rightarrow> event list" where
  "work_events mq s = (case mbox_rx_work mq s of None \<Rightarrow> [] | Some s' \<Rightarrow> new_events s s')"

definition interrupt_events :: "nat \<Rightarrow> 'h mbox_state \<Rightarrow> event list" where
  "interrupt_events m s = (case mbox_interrupt m s of None \<Rightarrow> [] | Some s' \<Rightarrow> new_events s s')"

definition get_events :: "string \<Rightarrow> nat option \<Rightarrow> open_env \<Rightarrow> 'h mbox_state \<Rightarrow> event list" where
  "get_events nm nb env s = new_events s (snd (omap_mbox_get nm nb env s))"

definition put_events :: "nat \<Rightarrow> nat option \<Rightarrow> 'h mbox_state \<Rightarrow> event list" where
  "put_events m nb s = (case omap_mbox_put m nb s of None \<Rightarrow> [] | Some s' \<Rightarrow> new_events s s')"

text \<open>A step that adds events to the trace, none of them a lock operation.\<close>

definition nolock_step :: "'h mbox_state \<Rightarrow> 'h mbox_state \<Rightarrow> bool" where
  "nolock_step s s' \<longleftrightarrow>
     (\<exists>evs. trace s' = trace s @ evs \<and> list_all (\<lambda>e. \<not> is_lock_event e) evs)"

lemma nolock_refl: "nolock_step s s"
  by (simp add: nolock_step_def)

lemma nolock_trans: "nolock_step s s1 \<Longrightarrow> nolock_step s1 s2 \<Longrightarrow> nolock_step s s2"
  unfolding nolock_step_def
proof (elim exE conjE)
  fix evs evs'
  assume "trace s1 = trace s @ evs" "trace s2 = trace s1 @ evs'"
    "list_all (\<lambda>e. \<not> is_lock_event e) evs" "list_all (\<lambda>e. \<not> is_lock_event e) evs'"
  then have "trace s2 = trace s @ (evs @ evs') \<and> list_all (\<lambda>e. \<not> is_lock_event e) (evs @ evs')"
    by simp
  then show "\<exists>evs. trace s2 = trace s @ evs \<and> list_all (\<lambda>e. \<not> is_lock_event e) evs"
    by blast
qed

lemma nolock_same_trace: "trace s' = trace s \<Longrightarrow> nolock_step s s'"
  by (simp add: nolock_step_def)

lemma nolock_emit: "\<not> is_lock_event e \<Longrightarrow> trace s' = trace s \<Longrightarrow> nolock_step s (emit e s')"
  by (simp add: nolock_step_def emit_def)

lemma under_lock_nolock:
  "list_all (\<lambda>e. \<not> is_lock_event e) evs \<Longrightarrow> under_lock False evs = []"
proof (induction evs)
  case Nil
  then show ?case by simp
next
  case (Cons e evs)
  then show ?case by (cases e) auto
qed

lemma under_lock_held:
  "list_all (\<lambda>e. \<not> is_lock_event e) evs \<Longrightarrow>
     under_lock True (evs @ EvUnlock qa # es) = evs @ under_lock False es"
proof (induction evs)
  case Nil
  then show ?case by simp
next
  case (Cons e evs)
  then show ?case by (cases e) auto
qed

lemma nolock_under_lock: "nolock_step s s' \<Longrightarrow> under_lock False (new_events s s') = []"
  by (auto simp: nolock_step_def new_events_def under_lock_nolock)

lemma poll_events_nolock:
  "list_all (is_poll_event m) evs \<Longrightarrow> list_all (\<lambda>e. \<not> is_lock_event e) evs"
proof (induction evs)
  case Nil
  then show ?case by simp
next
  case (Cons e evs)
  then show ?case by (cases e) auto
qed

lemma nolock_poll: "mbox_poll_for_space m s = (r, s') \<Longrightarrow> nolock_step s s'"
  using poll_loop_trace [of m 1000 s r s'] poll_events_nolock [of m]
  by (auto simp: mbox_poll_for_space_def nolock_step_def)

lemma nolock_fifo_write: "nolock_step s (mbox_fifo_write m x s)"
  by (simp add: mbox_fifo_write_def nolock_emit)

lemma nolock_enable_irq: "nolock_step s (omap_mbox_enable_irq m i s)"
  by (simp add: omap_mbox_enable_irq_def nolock_emit)

lemma nolock_disable_irq: "nolock_step s (omap_mbox_disable_irq m i s)"
  by (simp add: omap_mbox_disable_irq_def nolock_emit)

lemma nolock_ack: "nolock_step s (ack_mbox_irq m i s)"
  by (auto simp: ack_mbox_irq_def nolock_emit nolock_refl split: option.splits)

lemma nolock_warn: "nolock_step s (WARN_ON c s)"
  by (simp add: WARN_ON_def nolock_emit nolock_refl)

lemma nolock_kfifo_out: "q_kfifo_out mq n s = (bs, s') \<Longrightarrow> nolock_step s s'"
  by (auto simp: q_kfifo_out_def queue_upd_def nolock_emit split: prod.splits)

lemma nolock_kfifo_in: "q_kfifo_in mq buf s = (l, s') \<Longrightarrow> nolock_step s s'"
  by (auto simp: q_kfifo_in_def queue_upd_def nolock_emit split: prod.splits)

lemma nolock_fifo_empty: "mbox_fifo_empty m s = (e, s') \<Longrightarrow> nolock_step s s'"
  by (auto simp: mbox_fifo_empty_def nolock_emit split: prod.splits)

lemma nolock_fifo_read: "mbox_fifo_read m s = (x, s') \<Longrightarrow> nolock_step s s'"
  by (auto simp: mbox_fifo_read_def nolock_emit split: prod.splits)

lemma nolock_is_irq: "is_mbox_irq m i s = (b, s') \<Longrightarrow> nolock_step s s'"
  by (auto simp: is_mbox_irq_def nolock_emit split: prod.splits)

lemma nolock_tx_loop: "nolock_step s (tx_loop m mq msg s)"
proof (induction m mq msg s rule: tx_loop.induct)
  case (1 m mq msg s)
  show ?case
  proof (cases "kfifo_len (fifo (queue_at s mq)) = 0")
    case True
    then show ?thesis by (simp add: tx_loop_empty nolock_refl)
  next
    case False
    obtain r s1 where p: "mbox_poll_for_space m s = (r, s1)"
      by (cases "mbox_poll_for_space m s")
    show ?thesis
    proof (cases "r = 0")
      case False
      then have "tx_loop m mq msg s = omap_mbox_enable_irq m IRQ_TX s1"
        using \<open>kfifo_len (fifo (queue_at s mq)) \<noteq> 0\<close> p by (simp add: tx_loop_stall)
      then show ?thesis
        using nolock_trans [OF nolock_poll [OF p] nolock_enable_irq] by simp
    next
      case True
      obtain bs s2 where o: "q_kfifo_out mq sizeof_msg s1 = (bs, s2)"
        by (cases "q_kfifo_out mq sizeof_msg s1")
      let ?s3 = "mbox_fifo_write m (load_msg msg bs) (WARN_ON (length bs \<noteq> sizeof_msg) s2)"
      have l: "tx_loop m mq msg s = tx_loop m mq (load_msg msg bs) ?s3"
        using False p True o by (simp add: tx_loop_step)
      have "nolock_step ?s3 (tx_loop m mq (load_msg msg bs) ?s3)"
        using "1.IH" [OF False p [symmetric] _ o [symmetric]] True by simp
      moreover have "nolock_step s ?s3"
        using nolock_trans [OF nolock_poll [OF p]
            nolock_trans [OF nolock_kfifo_out [OF o] nolock_trans [OF nolock_warn nolock_fifo_write]]] .
      ultimately show ?thesis
        unfolding l by (rule nolock_trans [rotated])
    qed
  qed
qed

lemma nolock_rx_irq_loop: "rx_irq_loop m mq s = (nomem, s') \<Longrightarrow> nolock_step s s'"
proof (induction m mq s arbitrary: nomem s' rule: rx_irq_loop.induct)
  case (1 m mq s)
  obtain e s1 where fe: "mbox_fifo_empty m s = (e, s1)"
    by (cases "mbox_fifo_empty m s")
  note n1 = nolock_fifo_empty [OF fe]
  show ?case
  proof (cases e)
    case True
    then have "s' = s1"
      using "1.prems" fe by (simp add: rx_irq_loop_empty)
    then show ?thesis using n1 by simp
  next
    case False
    show ?thesis
    proof (cases "kfifo_avail (fifo (queue_at s1 mq)) < sizeof_msg")
      case True
      then have "s' = queue_upd mq (\<lambda>q. q\<lparr>full := True\<rparr>) (omap_mbox_disable_irq m IRQ_RX s1)"
        using "1.prems" fe False by (simp add: rx_irq_loop_nomem)
      moreover have "nolock_step s1 (queue_upd mq (\<lambda>q. q\<lparr>full := True\<rparr>)
          (omap_mbox_disable_irq m IRQ_RX s1))"
        by (simp add: queue_upd_def omap_mbox_disable_irq_def emit_def nolock_step_def)
      ultimately show ?thesis
        using n1 nolock_trans by blast
    next
      case av: False
      obtain x s2 where r: "mbox_fifo_read m s1 = (x, s2)"
        by (cases "mbox_fifo_read m s1")
      obtain len s3 where i: "q_kfifo_in mq (msg_bytes x) s2 = (len, s3)"
        by (cases "q_kfifo_in mq (msg_bytes x) s2")
      let ?s4 = "WARN_ON (len \<noteq> sizeof_msg) s3"
      have n4: "nolock_step s ?s4"
        using nolock_trans [OF n1 nolock_trans [OF nolock_fifo_read [OF r]
            nolock_trans [OF nolock_kfifo_in [OF i] nolock_warn]]] .
      have l: "rx_irq_loop m mq s =
          (if ops_type (ops (mem ?s4 m)) = OMAP_MBOX_TYPE1 then (False, ?s4)
           else rx_irq_loop m mq ?s4)"
        using fe False av r i by (simp add: rx_irq_loop_read)
      show ?thesis
      proof (cases "ops_type (ops (mem ?s4 m)) = OMAP_MBOX_TYPE1")
        case True
        then have "s' = ?s4"
          using l "1.prems" by simp
        then show ?thesis using n4 by simp
      next
        case t2: False
        then have "rx_irq_loop m mq ?s4 = (nomem, s')"
          using l "1.prems" by simp
        then have "nolock_step ?s4 s'"
          using "1.IH" [OF fe [symmetric] _ _ r [symmetric] i [symmetric] refl] False av t2
          by simp
        then show ?thesis
          using n4 nolock_trans by blast
      qed
    qed
  qed
qed

lemma nolock_tx_interrupt: "mbox_tx_interrupt m s = Some s' \<Longrightarrow> nolock_step s s'"
proof -
  assume a: "mbox_tx_interrupt m s = Some s'"
  let ?s1 = "ack_mbox_irq m IRQ_TX (omap_mbox_disable_irq m IRQ_TX s)"
  have n1: "nolock_step s ?s1"
    using nolock_trans [OF nolock_disable_irq nolock_ack] .
  obtain mq where s': "s' = tasklet_schedule mq ?s1"
    using a by (auto simp: mbox_tx_interrupt_def Let_def split: option.splits)
  have "nolock_step ?s1 (tasklet_schedule mq ?s1)"
    by (simp add: tasklet_schedule_def nolock_emit)
  then show ?thesis
    unfolding s' by (rule nolock_trans [OF n1])
qed

lemma nolock_rx_interrupt: "mbox_rx_interrupt m s = Some s' \<Longrightarrow> nolock_step s s'"
proof -
  assume a: "mbox_rx_interrupt m s = Some s'"
  then obtain mq where mq: "rxq (mem s m) = Some mq"
    by (auto simp: mbox_rx_interrupt_def split: option.splits)
  obtain nomem s1 where l: "rx_irq_loop m mq s = (nomem, s1)"
    by (cases "rx_irq_loop m mq s")
  let ?s2 = "if nomem then s1 else ack_mbox_irq m IRQ_RX s1"
  have s': "s' = schedule_work mq ?s2"
    using a mq l by (auto simp: mbox_rx_interrupt_def split: option.splits)
  have n2: "nolock_step s1 ?s2"
    by (simp add: nolock_refl nolock_ack)
  have n3: "nolock_step ?s2 (schedule_work mq ?s2)"
    by (simp add: schedule_work_def nolock_emit)
  show ?thesis
    unfolding s' by (rule nolock_trans [OF nolock_rx_irq_loop [OF l] nolock_trans [OF n2 n3]])
qed

lemma nolock_interrupt: "mbox_interrupt m s = Some s' \<Longrightarrow> nolock_step s s'"
proof -
  assume a: "mbox_interrupt m s = Some s'"
  obtain tx s1 where t: "is_mbox_irq m IRQ_TX s = (tx, s1)"
    by (cases "is_mbox_irq m IRQ_TX s")
  obtain s2 where s2: "(if tx then mbox_tx_interrupt m s1 else Some s1) = Some s2"
    using a t by (auto simp: mbox_interrupt_def split: option.splits)
  obtain rx s3 where r: "is_mbox_irq m IRQ_RX s2 = (rx, s3)"
    by (cases "is_mbox_irq m IRQ_RX s2")
  have s': "(if rx then mbox_rx_interrupt m s3 else Some s3) = Some s'"
    using a t s2 r by (simp add: mbox_interrupt_def)
  have n2: "nolock_step s1 s2"
    using s2 nolock_tx_interrupt [of m s1 s2] by (auto simp: nolock_refl split: if_splits)
  have n4: "nolock_step s3 s'"
    using s' nolock_rx_interrupt [of m s3 s'] by (auto simp: nolock_refl split: if_splits)
  show ?thesis
    by (rule nolock_trans [OF nolock_is_irq [OF t]
          nolock_trans [OF n2 nolock_trans [OF nolock_is_irq [OF r] n4]]])
qed

lemma nolock_disable: "nolock_step s (omap_mbox_disable m s)"
  by (simp add: omap_mbox_disable_def nolock_emit)

lemma nolock_fail_startup: "fail_startup m ret s = (r, s') \<Longrightarrow> nolock_step s s'"
  by (auto simp: fail_startup_def nolock_disable)

lemma nolock_fail_alloc_txq: "fail_alloc_txq m ret s = (r, s') \<Longrightarrow> nolock_step s s'"
  by (auto simp: fail_alloc_txq_def fail_startup_def omap_mbox_disable_def mbox_upd_def emit_def
      nolock_step_def Let_def split: option.splits)

lemma nolock_queue_free: "nolock_step s (mbox_queue_free p s)"
  by (simp add: mbox_queue_free_def nolock_step_def split: option.splits)

lemma nolock_fail_alloc_rxq: "fail_alloc_rxq m ret s = (r, s') \<Longrightarrow> nolock_step s s'"
  unfolding fail_alloc_rxq_def
  by (rule nolock_trans [OF nolock_queue_free nolock_fail_alloc_txq])

lemma nolock_fail_request_irq: "fail_request_irq m ret s = (r, s') \<Longrightarrow> nolock_step s s'"
  unfolding fail_request_irq_def
  by (rule nolock_trans [OF nolock_queue_free nolock_fail_alloc_rxq])

lemma nolock_queue_alloc: "mbox_queue_alloc e s = (p, s') \<Longrightarrow> nolock_step s s'"
  by (auto simp: mbox_queue_alloc_def nolock_step_def split: if_splits option.splits)

lemma nolock_mbox_upd: "nolock_step s (mbox_upd m f s)"
  by (simp add: mbox_upd_def nolock_step_def)

lemma nolock_queue_upd: "nolock_step s (queue_upd qa f s)"
  by (simp add: queue_upd_def nolock_step_def)

lemma nolock_emit1: "\<not> is_lock_event e \<Longrightarrow> nolock_step s (emit e s)"
  by (simp add: nolock_emit)

lemma nolock_startup_queues: "startup_queues m env s = (r, s') \<Longrightarrow> nolock_step s s'"
proof -
  assume a: "startup_queues m env s = (r, s')"
  let ?s0 = "mbox_upd m (\<lambda>x. x\<lparr>use_count := use_count (mem s m) + 1\<rparr>) s"
  have n0: "nolock_step s ?s0"
    by (rule nolock_mbox_upd)
  show ?thesis
  proof (cases "use_count (mem s m) = 0")
    case False
    then have "s' = ?s0"
      using a by (simp add: startup_queues_def Let_def)
    then show ?thesis using n0 by simp
  next
    case True
    obtain p1 s1 where a1: "mbox_queue_alloc (txq_env env) ?s0 = (p1, s1)"
      by (cases "mbox_queue_alloc (txq_env env) ?s0")
    have n1: "nolock_step s s1"
      by (rule nolock_trans [OF n0 nolock_queue_alloc [OF a1]])
    show ?thesis
    proof (cases p1)
      case None
      then have "fail_alloc_txq m (- ENOMEM) s1 = (r, s')"
        using a True a1 by (simp add: startup_queues_def Let_def)
      then show ?thesis
        by (rule nolock_trans [OF n1 nolock_fail_alloc_txq])
    next
      case (Some tq)
      let ?s1' = "mbox_upd m (\<lambda>x. x\<lparr>txq := Some tq\<rparr>) s1"
      obtain p2 s2 where a2: "mbox_queue_alloc (rxq_env env) ?s1' = (p2, s2)"
        by (cases "mbox_queue_alloc (rxq_env env) ?s1'")
      have n2: "nolock_step s s2"
        by (rule nolock_trans [OF n1 nolock_trans [OF nolock_mbox_upd nolock_queue_alloc [OF a2]]])
      show ?thesis
      proof (cases p2)
        case None
        then have "fail_alloc_rxq m (- ENOMEM) s2 = (r, s')"
          using a True a1 Some a2 by (simp add: startup_queues_def Let_def)
        then show ?thesis
          by (rule nolock_trans [OF n2 nolock_fail_alloc_rxq])
      next
        case rq: (Some rq)
        let ?s3 = "queue_upd rq (\<lambda>q. q\<lparr>q_mbox := Some m\<rparr>) (mbox_upd m (\<lambda>x. x\<lparr>rxq := Some rq\<rparr>) s2)"
        let ?s4 = "emit (EvRequestIrq m (request_irq_ret env)) ?s3"
        have n4: "nolock_step s ?s4"
          by (rule nolock_trans [OF n2 nolock_trans [OF nolock_mbox_upd
                nolock_trans [OF nolock_queue_upd nolock_emit1]]]) simp
        show ?thesis
        proof (cases "request_irq_ret env = 0")
          case True
          then have "s' = omap_mbox_enable_irq m IRQ_RX ?s4"
            using a \<open>use_count (mem s m) = 0\<close> a1 Some a2 rq
            by (simp add: startup_queues_def Let_def)
          then show ?thesis
            using nolock_trans [OF n4 nolock_enable_irq] by simp
        next
          case False
          then have "fail_request_irq m (request_irq_ret env) (emit EvErr ?s4) = (r, s')"
            using a \<open>use_count (mem s m) = 0\<close> a1 Some a2 rq
            by (simp add: startup_queues_def Let_def)
          then have n6: "nolock_step (emit EvErr ?s4) s'"
            by (rule nolock_fail_request_irq)
          have n5: "nolock_step ?s4 (emit EvErr ?s4)"
            by (simp add: nolock_emit1)
          show ?thesis
            by (rule nolock_trans [OF n4 nolock_trans [OF n5 n6]])
        qed
      qed
    qed
  qed
qed

lemma nolock_startup: "omap_mbox_startup m env s = (r, s') \<Longrightarrow> nolock_step s s'"
proof -
  assume a: "omap_mbox_startup m env s = (r, s')"
  let ?s2 = "(omap_mbox_enable m s)\<lparr>mbox_configured := mbox_configured s + 1\<rparr>"
  have n2: "nolock_step s ?s2"
    by (simp add: omap_mbox_enable_def emit_def nolock_step_def)
  have c: "mbox_configured (omap_mbox_enable m s) = mbox_configured s"
    by (simp add: omap_mbox_enable_def emit_def)
  show ?thesis
  proof (cases "mbox_configured s = 0")
    case False
    then have "startup_queues m env ?s2 = (r, s')"
      using a c by (simp add: omap_mbox_startup_def Let_def)
    then show ?thesis
      by (rule nolock_trans [OF n2 nolock_startup_queues])
  next
    case True
    show ?thesis
    proof (cases "startup (ops (mem ?s2 m))")
      case None
      then have "fail_startup m 0 ?s2 = (r, s')"
        using a c True by (simp add: omap_mbox_startup_def Let_def)
      then show ?thesis
        by (rule nolock_trans [OF n2 nolock_fail_startup])
    next
      case (Some f)
      obtain ret h where f: "f (hw ?s2) = (ret, h)"
        by (cases "f (hw ?s2)")
      let ?s3 = "emit (EvStartup m ret) (?s2\<lparr>hw := h\<rparr>)"
      have n3: "nolock_step s ?s3"
        by (simp add: omap_mbox_enable_def emit_def nolock_step_def)
      have "fail_startup m ret ?s3 = (r, s') \<or> startup_queues m env ?s3 = (r, s')"
        using a c True Some f by (auto simp: omap_mbox_startup_def Let_def split: if_splits)
      then have "nolock_step ?s3 s'"
        using nolock_fail_startup nolock_startup_queues by fast
      then show ?thesis
        by (rule nolock_trans [OF n3])
    qed
  qed
qed

lemma nolock_get: "nolock_step s (snd (omap_mbox_get nm nb env s))"
proof (cases "mboxes s")
  case None
  then show ?thesis by (simp add: omap_mbox_get_def nolock_refl)
next
  case (Some l)
  show ?thesis
  proof (cases "find (\<lambda>a. name (mem s a) = nm) l")
    case None
    then show ?thesis using Some by (simp add: omap_mbox_get_def nolock_refl)
  next
    case m: (Some m)
    obtain ret s1 where st: "omap_mbox_startup m env s = (ret, s1)"
      by (cases "omap_mbox_startup m env s")
    have "nolock_step s1 (blocking_notifier_chain_register m n s1)" for n
      by (simp add: blocking_notifier_chain_register_def nolock_mbox_upd)
    then have "nolock_step s1 (snd (omap_mbox_get nm nb env s))"
      using Some m st by (auto simp: omap_mbox_get_def nolock_refl split: option.splits)
    then show ?thesis
      by (rule nolock_trans [OF nolock_startup [OF st]])
  qed
qed

lemma nolock_fini_shutdown: "nolock_step s (fini_shutdown m s)"
  by (simp add: fini_shutdown_def emit_def nolock_step_def Let_def split: option.splits)

lemma nolock_fini: "omap_mbox_fini m s = Some s' \<Longrightarrow> nolock_step s s'"
proof -
  assume a: "omap_mbox_fini m s = Some s'"
  obtain rq where rq: "rxq (mem s m) = Some rq"
    using a by (auto simp: omap_mbox_fini_def split: option.splits)
  let ?s1 = "emit (EvFlushWork rq) s"
  let ?s2 = "mbox_upd m (\<lambda>x. x\<lparr>use_count := use_count (mem ?s1 m) - 1\<rparr>) ?s1"
  have n2: "nolock_step s ?s2"
    by (rule nolock_trans [OF nolock_emit1 nolock_mbox_upd]) simp
  have "\<exists>s3. s' = omap_mbox_disable m (fini_shutdown m s3) \<and> nolock_step ?s2 s3"
  proof (cases "use_count (mem ?s1 m) - 1 = 0")
    case False
    then have "s' = omap_mbox_disable m (fini_shutdown m ?s2)"
      using a rq by (auto simp: omap_mbox_fini_def Let_def split: option.splits)
    then show ?thesis using nolock_refl by blast
  next
    case True
    then obtain tq where s': "s' = omap_mbox_disable m (fini_shutdown m
        (mbox_queue_free (rxq (mem ?s2 m)) (mbox_queue_free (txq (mem ?s2 m))
           (emit (EvTaskletKill tq) (emit (EvFreeIrq m) ?s2)))))"
      using a rq by (auto simp: omap_mbox_fini_def Let_def split: option.splits)
    have "nolock_step ?s2 (mbox_queue_free (rxq (mem ?s2 m)) (mbox_queue_free (txq (mem ?s2 m))
           (emit (EvTaskletKill tq) (emit (EvFreeIrq m) ?s2))))"
      by (rule nolock_trans [OF nolock_emit1 nolock_trans [OF nolock_emit1
            nolock_trans [OF nolock_queue_free nolock_queue_free]]]) simp_all
    then show ?thesis using s' by blast
  qed
  then obtain s3 where s3: "s' = omap_mbox_disable m (fini_shutdown m s3)"
    and n3: "nolock_step ?s2 s3"
    by blast
  show ?thesis
    unfolding s3
    by (rule nolock_trans [OF n2 nolock_trans [OF n3
          nolock_trans [OF nolock_fini_shutdown nolock_disable]]])
qed

lemma nolock_put: "omap_mbox_put m nb s = Some s' \<Longrightarrow> nolock_step s s'"
proof -
  assume a: "omap_mbox_put m nb s = Some s'"
  then obtain s1 where f: "omap_mbox_fini m s = Some s1"
    by (auto simp: omap_mbox_put_def split: option.splits)
  have "nolock_step s1 (blocking_notifier_chain_unregister m n s1)" for n
    by (simp add: blocking_notifier_chain_unregister_def nolock_mbox_upd)
  then have "nolock_step s1 s'"
    using a f by (auto simp: omap_mbox_put_def nolock_refl split: option.splits)
  then show ?thesis
    by (rule nolock_trans [OF nolock_fini [OF f]])
qed

fun is_rx_enable :: "event \<Rightarrow> bool" where
  "is_rx_enable (EvEnableIrq m IRQ_RX) = True"
| "is_rx_enable e = False"

lemma under_lock_append:
  "list_all (\<lambda>e. \<not> is_lock_event e) evs \<Longrightarrow>
     under_lock h (evs @ es) = (if h then evs else []) @ under_lock h es"
proof (induction evs)
  case Nil
  then show ?case by simp
next
  case (Cons e evs)
  then show ?case by (cases e) auto
qed

lemma under_lock_rx_work_events:
  "list_all is_rx_enable (under_lock False (rx_work_events m mq obs fl xs))"
proof (induction xs arbitrary: fl)
  case Nil
  then show ?case by simp
next
  case (Cons x xs)
  have n: "list_all (\<lambda>e. \<not> is_lock_event e) (map (\<lambda>nb. EvNotify m nb sizeof_msg x) obs)"
    by (simp add: list_all_iff)
  have "under_lock False (rx_work_events m mq obs fl (x # xs))
      = under_lock False (map (\<lambda>nb. EvNotify m nb sizeof_msg x) obs
          @ EvLock mq # (if fl then [EvEnableIrq m IRQ_RX] else []) @ EvUnlock mq
          # rx_work_events m mq obs False xs)"
    by simp
  also have "\<dots> = (if fl then [EvEnableIrq m IRQ_RX] else [])
      @ under_lock False (rx_work_events m mq obs False xs)"
    unfolding under_lock_append [OF n] by simp
  finally show ?case
    using Cons.IH [of False] by simp
qed

lemma work_events_under_lock: "list_all is_rx_enable (under_lock False (work_events mq s))"
proof (cases "mbox_rx_work mq s")
  case None
  then show ?thesis by (simp add: work_events_def)
next
  case (Some s')
  then obtain q where q: "queues s mq = Some q"
    by (auto simp: mbox_rx_work_def split: option.splits)
  show ?thesis
  proof (cases "q_mbox q")
    case None
    then have "s' = s"
      using Some q by (auto simp: mbox_rx_work_def split: if_splits)
    then show ?thesis
      using Some by (simp add: work_events_def new_events_def)
  next
    case m: (Some m)
    then have "s' = rx_work_loop m mq s"
      using Some q by (simp add: mbox_rx_work_def)
    then have "trace s' = trace s @ rx_work_events m mq (notifier (mem s m)) (full q)
        (queue_msgs (kf_data (fifo q)))"
      using rx_work_loop_run [OF q, of m] by simp
    then have "work_events mq s = rx_work_events m mq (notifier (mem s m)) (full q)
        (queue_msgs (kf_data (fifo q)))"
      using Some by (simp add: work_events_def new_events_append)
    then show ?thesis
      by (simp add: under_lock_rx_work_events)
  qed
qed

text \<open>What \<^verbatim>\<open>omap_mbox_msg_send\<close> does between taking and releasing the lock.\<close>

fun is_send_body :: "nat \<Rightarrow> event \<Rightarrow> bool" where
  "is_send_body m (EvFifoFull m' b) = (m' = m)"
| "is_send_body m (EvUdelay n) = True"
| "is_send_body m (EvFifoWrite m' x) = (m' = m)"
| "is_send_body m (EvKfifoIn qa n) = True"
| "is_send_body m (EvTaskletSchedule qa) = True"
| "is_send_body m e = False"

lemma poll_events_send_body:
  "list_all (is_poll_event m) evs \<Longrightarrow> list_all (is_send_body m) evs"
proof (induction evs)
  case Nil
  then show ?case by simp
next
  case (Cons e evs)
  then show ?case by (cases e) auto
qed

lemma send_body_nolock:
  "list_all (is_send_body m) evs \<Longrightarrow> list_all (\<lambda>e. \<not> is_lock_event e) evs"
proof (induction evs)
  case Nil
  then show ?case by simp
next
  case (Cons e evs)
  then show ?case by (cases e) auto
qed

lemma send_events_shape:
  assumes "txq (mem s m) = Some mq" and "queues s mq = Some q"
  shows "\<exists>body. send_events m msg s = EvLock mq # body @ [EvUnlock mq] \<and>
     list_all (is_send_body m) body"
proof (cases "kfifo_avail (fifo q) < sizeof_msg")
  case True
  then have "omap_mbox_msg_send m msg s
      = Some (- ENOMEM, s\<lparr>trace := trace s @ [EvLock mq, EvUnlock mq]\<rparr>)"
    using assms
    by (simp add: omap_mbox_msg_send_def spin_lock_def spin_unlock_def emit_def queue_at_def)
  then have "send_events m msg s = EvLock mq # [] @ [EvUnlock mq]"
    by (simp add: send_events_def new_events_def)
  then show ?thesis by (intro exI [of _ "[]"]) simp
next
  case False
  note av = this
  let ?sl = "spin_lock mq s"
  have ql: "queue_at ?sl mq = q" "queues ?sl mq = Some q"
    using assms by (simp_all add: queue_at_def spin_lock_def emit_def)
  have enq: "\<exists>s'. (case q_kfifo_in mq (msg_bytes msg) t of
        (len, s3) \<Rightarrow> (0 :: cint, spin_unlock mq (tasklet_schedule mq (WARN_ON (len \<noteq> sizeof_msg) s3))))
      = (0, s') \<and> trace s' = trace t @ [EvKfifoIn mq sizeof_msg, EvTaskletSchedule mq, EvUnlock mq]"
    if "queues t mq = Some q" for t :: "'a mbox_state"
    using kfifo_in_one [OF that, of msg] av
    by (simp add: WARN_ON_def tasklet_schedule_def spin_unlock_def emit_def)
  show ?thesis
  proof (cases "kfifo_is_empty (fifo q)")
    case False
    obtain s' where "(case q_kfifo_in mq (msg_bytes msg) ?sl of
        (len, s3) \<Rightarrow> (0 :: cint, spin_unlock mq (tasklet_schedule mq (WARN_ON (len \<noteq> sizeof_msg) s3))))
      = (0, s')" and t: "trace s' = trace ?sl @ [EvKfifoIn mq sizeof_msg, EvTaskletSchedule mq, EvUnlock mq]"
      using enq [OF ql(2)] by blast
    then have "omap_mbox_msg_send m msg s = Some (0, s')"
      using assms av False ql by (simp add: omap_mbox_msg_send_def)
    moreover have "trace s' = trace s @ (EvLock mq # [EvKfifoIn mq sizeof_msg, EvTaskletSchedule mq]
        @ [EvUnlock mq])"
      using t by (simp add: spin_lock_def emit_def)
    ultimately have "send_events m msg s
        = EvLock mq # [EvKfifoIn mq sizeof_msg, EvTaskletSchedule mq] @ [EvUnlock mq]"
      by (simp add: send_events_def new_events_append)
    then show ?thesis
      by (intro exI [of _ "[EvKfifoIn mq sizeof_msg, EvTaskletSchedule mq]"]) simp
  next
    case True
    obtain r sp where p: "mbox_poll_for_space m s = (r, sp)"
      by (cases "mbox_poll_for_space m s")
    define pe where "pe = new_events s sp"
    let ?sp = "sp\<lparr>trace := trace s @ [EvLock mq] @ pe\<rparr>"
    have pl: "mbox_poll_for_space m ?sl = (r, ?sp)"
      unfolding pe_def using p by (rule poll_for_space_after_lock)
    have pev: "list_all (is_send_body m) pe"
      using poll_loop_trace [of m 1000 s r sp] p poll_events_send_body [of m]
      by (auto simp: mbox_poll_for_space_def pe_def new_events_def)
    have qp: "queues ?sp mq = Some q"
      using poll_for_space_frame [OF p] assms(2) by (simp add: same_sw_def)
    show ?thesis
    proof (cases "r = 0")
      case True
      then have "omap_mbox_msg_send m msg s
          = Some (0, spin_unlock mq (mbox_fifo_write m msg ?sp))"
        using assms av \<open>kfifo_is_empty (fifo q)\<close> ql pl by (simp add: omap_mbox_msg_send_def)
      moreover have "trace (spin_unlock mq (mbox_fifo_write m msg ?sp))
          = trace s @ (EvLock mq # (pe @ [EvFifoWrite m msg]) @ [EvUnlock mq])"
        by (simp add: spin_unlock_def mbox_fifo_write_def emit_def)
      ultimately have "send_events m msg s = EvLock mq # (pe @ [EvFifoWrite m msg]) @ [EvUnlock mq]"
        by (simp add: send_events_def new_events_append)
      then show ?thesis
        using pev by (intro exI [of _ "pe @ [EvFifoWrite m msg]"]) simp
    next
      case False
      obtain s' where "(case q_kfifo_in mq (msg_bytes msg) ?sp of
          (len, s3) \<Rightarrow> (0 :: cint, spin_unlock mq (tasklet_schedule mq (WARN_ON (len \<noteq> sizeof_msg) s3))))
        = (0, s')" and t: "trace s' = trace ?sp @ [EvKfifoIn mq sizeof_msg, EvTaskletSchedule mq, EvUnlock mq]"
        using enq [OF qp] by blast
      then have "omap_mbox_msg_send m msg s = Some (0, s')"
        using assms av \<open>kfifo_is_empty (fifo q)\<close> ql pl False
        by (simp add: omap_mbox_msg_send_def)
      moreover have "trace s' = trace s @ (EvLock mq
          # (pe @ [EvKfifoIn mq sizeof_msg, EvTaskletSchedule mq]) @ [EvUnlock mq])"
        using t by simp
      ultimately have "send_events m msg s
          = EvLock mq # (pe @ [EvKfifoIn mq sizeof_msg, EvTaskletSchedule mq]) @ [EvUnlock mq]"
        by (simp add: send_events_def new_events_append)
      then show ?thesis
        using pev
        by (intro exI [of _ "pe @ [EvKfifoIn mq sizeof_msg, EvTaskletSchedule mq]"]) simp
    qed
  qed
qed

lemma send_events_faults:
  "txq (mem s m) = None \<or> (\<exists>mq. txq (mem s m) = Some mq \<and> queues s mq = None) \<Longrightarrow>
     send_events m msg s = []"
  by (auto simp: send_events_def omap_mbox_msg_send_def)

lemma send_events_under_lock:
  "under_lock False (send_events m msg s) = butlast (tl (send_events m msg s)) \<and>
   list_all (is_send_body m) (under_lock False (send_events m msg s))"
proof (cases "\<exists>mq q. txq (mem s m) = Some mq \<and> queues s mq = Some q")
  case True
  then obtain mq q where "txq (mem s m) = Some mq" "queues s mq = Some q"
    by blast
  then obtain body where b: "send_events m msg s = EvLock mq # body @ [EvUnlock mq]"
    "list_all (is_send_body m) body"
    using send_events_shape by blast
  have "under_lock False (send_events m msg s) = body"
    unfolding b(1) using under_lock_held [OF send_body_nolock [OF b(2)], of mq "[]"] by simp
  then show ?thesis
    using b by (simp add: butlast_append)
next
  case False
  then have "send_events m msg s = []"
    by (intro send_events_faults) (cases "txq (mem s m)"; auto)
  then show ?thesis by simp
qed

text \<open>
  What \<^verbatim>\<open>omap_mbox_msg_send\<close> does between taking and releasing the lock of the transmit
  queue \<open>q\<close> at \<open>tq\<close>: nothing when the queue has no room; on an empty queue the poll of the
  hardware, followed by the write to the hardware FIFO when the poll finds space; and in the
  other cases the copy into the queue and the scheduling of the tasklet.
\<close>

definition send_body ::
  "'h omap_mbox_ops \<Rightarrow> nat \<Rightarrow> nat \<Rightarrow> omap_mbox_queue \<Rightarrow> mbox_msg_t \<Rightarrow> 'h \<Rightarrow> event list" where
  "send_body p m tq q msg h =
     (if kfifo_avail (fifo q) < sizeof_msg then []
      else if kfifo_is_empty (fifo q)
      then (case poll_spec p m 1000 h of
              (ok, h1, pe) \<Rightarrow>
                pe @ (if ok then [EvFifoWrite m msg]
                      else [EvKfifoIn tq sizeof_msg, EvTaskletSchedule tq]))
      else [EvKfifoIn tq sizeof_msg, EvTaskletSchedule tq])"

definition no_locks :: "event list \<Rightarrow> bool" where
  "no_locks evs = list_all (\<lambda>e. \<not> is_lock_event e) evs"

lemma no_locks_Nil: "no_locks []"
  by (simp add: no_locks_def)

lemma nolock_new_events: "nolock_step s s' \<Longrightarrow> no_locks (new_events s s')"
  by (auto simp: nolock_step_def new_events_def no_locks_def)

lemma send_body_no_locks: "no_locks (send_body p m tq q msg h)"
proof -
  obtain ok h1 pe where po: "poll_spec p m 1000 h = (ok, h1, pe)"
    by (cases "poll_spec p m 1000 h")
  have "list_all (\<lambda>e. \<not> is_lock_event e) pe"
    using poll_spec_no_lock [OF po] by (rule poll_events_nolock)
  then show ?thesis
    using po by (simp add: send_body_def no_locks_def)
qed

lemma send_events_spec:
  assumes "txq (mem s m) = Some tq" and "queues s tq = Some q"
  shows "send_events m msg s
     = EvLock tq # send_body (ops (mem s m)) m tq q msg (hw s) @ [EvUnlock tq]"
proof (cases "kfifo_avail (fifo q) < sizeof_msg")
  case True
  then have "omap_mbox_msg_send m msg s
      = Some (- ENOMEM, s\<lparr>trace := trace s @ [EvLock tq, EvUnlock tq]\<rparr>)"
    using assms
    by (simp add: omap_mbox_msg_send_def spin_lock_def spin_unlock_def emit_def queue_at_def)
  then show ?thesis
    using True by (simp add: send_events_def new_events_def send_body_def)
next
  case False
  note av = this
  let ?sl = "spin_lock tq s"
  have ql: "queue_at ?sl tq = q" "queues ?sl tq = Some q"
    using assms by (simp_all add: queue_at_def spin_lock_def emit_def)
  have enq: "(case q_kfifo_in tq (msg_bytes msg) t of
        (len, s3) \<Rightarrow> (0 :: cint, spin_unlock tq (tasklet_schedule tq (WARN_ON (len \<noteq> sizeof_msg) s3))))
      = (0, t\<lparr>queues := (queues t)(tq \<mapsto>
                  q\<lparr>fifo := (fifo q)\<lparr>kf_data := kf_data (fifo q) @ msg_bytes msg\<rparr>\<rparr>),
               trace := trace t @ [EvKfifoIn tq sizeof_msg, EvTaskletSchedule tq, EvUnlock tq]\<rparr>)"
    if "queues t tq = Some q" for t :: "'a mbox_state"
    using kfifo_in_one [OF that, of msg] av
    by (simp add: WARN_ON_def tasklet_schedule_def spin_unlock_def emit_def)
  show ?thesis
  proof (cases "kfifo_is_empty (fifo q)")
    case False
    have "omap_mbox_msg_send m msg s
        = Some (0, ?sl\<lparr>queues := (queues ?sl)(tq \<mapsto>
                  q\<lparr>fifo := (fifo q)\<lparr>kf_data := kf_data (fifo q) @ msg_bytes msg\<rparr>\<rparr>),
               trace := trace ?sl @ [EvKfifoIn tq sizeof_msg, EvTaskletSchedule tq, EvUnlock tq]\<rparr>)"
      using assms av False ql enq [OF ql(2)] by (simp add: omap_mbox_msg_send_def Let_def)
    then show ?thesis
      using av False
      by (simp add: send_events_def new_events_def send_body_def spin_lock_def emit_def)
  next
    case True
    obtain ok h1 pe where po: "poll_spec (ops (mem s m)) m 1000 (hw s) = (ok, h1, pe)"
      by (cases "poll_spec (ops (mem s m)) m 1000 (hw s)")
    let ?sp = "s\<lparr>hw := h1, trace := trace s @ EvLock tq # pe\<rparr>"
    have pl: "mbox_poll_for_space m ?sl = (if ok then 0 else - 1, ?sp)"
      using po by (simp add: poll_for_space_spec spin_lock_def emit_def)
    have qp: "queues ?sp tq = Some q"
      using assms(2) by simp
    show ?thesis
    proof (cases ok)
      case ok: True
      have "omap_mbox_msg_send m msg s = Some (0, spin_unlock tq (mbox_fifo_write m msg ?sp))"
        using assms av True ql pl ok by (simp add: omap_mbox_msg_send_def Let_def)
      then show ?thesis
        using av True po ok
        by (simp add: send_events_def new_events_def send_body_def spin_unlock_def
            mbox_fifo_write_def emit_def)
    next
      case nok: False
      have "omap_mbox_msg_send m msg s
          = Some (0, ?sp\<lparr>queues := (queues ?sp)(tq \<mapsto>
                  q\<lparr>fifo := (fifo q)\<lparr>kf_data := kf_data (fifo q) @ msg_bytes msg\<rparr>\<rparr>),
               trace := trace ?sp @ [EvKfifoIn tq sizeof_msg, EvTaskletSchedule tq, EvUnlock tq]\<rparr>)"
        using assms av True ql pl nok enq [OF qp]
        by (simp add: omap_mbox_msg_send_def neg1_neq_0 Let_def)
      then show ?thesis
        using av True po nok by (simp add: send_events_def new_events_def send_body_def)
    qed
  qed
qed

lemma work_events_spec:
  assumes "queues s mq = Some q" and "q_mbox q = Some mb"
  shows "work_events mq s
     = rx_work_events mb mq (notifier (mem s mb)) (full q) (queue_msgs (kf_data (fifo q)))"
proof -
  have "mbox_rx_work mq s = Some (rx_work_loop mb mq s)"
    using assms by (simp add: mbox_rx_work_def)
  moreover have "trace (rx_work_loop mb mq s) = trace s @ rx_work_events mb mq (notifier (mem s mb))
      (full q) (queue_msgs (kf_data (fifo q)))"
    using rx_work_loop_run [OF assms(1), of mb] by simp
  ultimately show ?thesis
    by (simp add: work_events_def new_events_append)
qed

text \<open>
  Claim C8, as amended. The deferred transmit task, the interrupt handlers, open and close
  take no queue lock at all. The deferred receive task takes the receive queue's lock once
  per message, after the dequeue and the dispatch to the observers, and holds it only for
  the full-flag check with, when the flag is set, its clearing and the enabling of the RX
  interrupt: its events are exactly \<open>rx_work_events\<close>. \<^verbatim>\<open>omap_mbox_msg_send\<close> takes the
  transmit queue's lock first and releases it last, and holds it over everything it does,
  which is \<open>send_body\<close>: the space check, the bounded poll of the hardware with its delays,
  and the write to the hardware FIFO or the enqueue and the scheduling of the tasklet. No
  observer is dispatched under a queue lock.
\<close>

theorem C8_lock_scope:
  "no_locks (tasklet_events m msg0 s) \<and>
   no_locks (interrupt_events m s) \<and>
   no_locks (get_events nm nb env s) \<and>
   no_locks (put_events m nb s) \<and>
   under_lock False (tasklet_events m msg0 s) = [] \<and>
   under_lock False (interrupt_events m s) = [] \<and>
   under_lock False (get_events nm nb env s) = [] \<and>
   under_lock False (put_events m nb s) = [] \<and>
   (queues s mq = Some q \<and> q_mbox q = Some mb \<longrightarrow>
      work_events mq s
        = rx_work_events mb mq (notifier (mem s mb)) (full q) (queue_msgs (kf_data (fifo q)))) \<and>
   list_all is_rx_enable (under_lock False (work_events mq s)) \<and>
   (txq (mem s m) = Some tq \<and> queues s tq = Some tqq \<longrightarrow>
      send_events m msg s
        = EvLock tq # send_body (ops (mem s m)) m tq tqq msg (hw s) @ [EvUnlock tq] \<and>
      no_locks (send_body (ops (mem s m)) m tq tqq msg (hw s)) \<and>
      under_lock False (send_events m msg s) = send_body (ops (mem s m)) m tq tqq msg (hw s)) \<and>
   under_lock False (send_events m msg s) = butlast (tl (send_events m msg s)) \<and>
   list_all (is_send_body m) (under_lock False (send_events m msg s))"
proof -
  have a: "no_locks (tasklet_events m msg0 s)"
  proof (cases "mbox_tx_tasklet m msg0 s")
    case None
    then show ?thesis by (simp add: tasklet_events_def no_locks_Nil)
  next
    case (Some s')
    then have "\<exists>tq. s' = tx_loop m tq msg0 s"
      by (auto simp: mbox_tx_tasklet_def split: option.splits)
    then have "nolock_step s s'"
      using nolock_tx_loop by blast
    then show ?thesis
      using Some by (simp add: tasklet_events_def nolock_new_events)
  qed
  have b: "no_locks (interrupt_events m s)"
    using nolock_interrupt [of m s]
    by (cases "mbox_interrupt m s")
      (simp_all add: interrupt_events_def nolock_new_events no_locks_Nil)
  have c: "no_locks (get_events nm nb env s)"
    by (simp add: get_events_def nolock_new_events nolock_get)
  have d: "no_locks (put_events m nb s)"
    using nolock_put [of m nb s]
    by (cases "omap_mbox_put m nb s") (simp_all add: put_events_def nolock_new_events no_locks_Nil)
  have u: "under_lock False evs = []" if "no_locks evs" for evs
    using that by (simp add: no_locks_def under_lock_nolock)
  have w: "work_events mq s
      = rx_work_events mb mq (notifier (mem s mb)) (full q) (queue_msgs (kf_data (fifo q)))"
    if "queues s mq = Some q" "q_mbox q = Some mb"
    using that by (rule work_events_spec)
  have e: "send_events m msg s
        = EvLock tq # send_body (ops (mem s m)) m tq tqq msg (hw s) @ [EvUnlock tq] \<and>
      no_locks (send_body (ops (mem s m)) m tq tqq msg (hw s)) \<and>
      under_lock False (send_events m msg s) = send_body (ops (mem s m)) m tq tqq msg (hw s)"
    if "txq (mem s m) = Some tq" "queues s tq = Some tqq"
  proof -
    note sh = send_events_spec [OF that, of msg]
    note nl = send_body_no_locks [of "ops (mem s m)" m tq tqq msg "hw s"]
    have "under_lock False (send_events m msg s) = send_body (ops (mem s m)) m tq tqq msg (hw s)"
      unfolding sh using under_lock_held [OF nl [unfolded no_locks_def], of tq "[]"] by simp
    then show ?thesis
      using sh nl by simp
  qed
  show ?thesis
    using a b c d u [OF a] u [OF b] u [OF c] u [OF d] w work_events_under_lock [of mq s] e
      send_events_under_lock [of m msg s]
    by blast
qed

theorem C8_lock_scope_witness:
  "send_events 0 7 (sim_open (demo_queue 16 []) (demo_queue 16 []) (sim_hw0\<lparr>tx_room := 0\<rparr>))
     = [EvLock 0, EvFifoFull 0 True, EvKfifoIn 0 4, EvTaskletSchedule 0, EvUnlock 0] \<and>
   under_lock False
       (send_events 0 7 (sim_open (demo_queue 16 []) (demo_queue 16 []) (sim_hw0\<lparr>tx_room := 0\<rparr>)))
     = [EvFifoFull 0 True, EvKfifoIn 0 4, EvTaskletSchedule 0] \<and>
   send_events 0 7 (sim_open (demo_queue 16 []) (demo_queue 16 []) sim_hw0)
     = [EvLock 0, EvFifoFull 0 False, EvFifoWrite 0 7, EvUnlock 0] \<and>
   work_events 1 demo_rx_pending
     = [EvKfifoOut 1 4, EvNotify 0 5 4 1, EvNotify 0 9 4 1,
        EvLock 1, EvEnableIrq 0 IRQ_RX, EvUnlock 1,
        EvKfifoOut 1 4, EvNotify 0 5 4 2, EvNotify 0 9 4 2, EvLock 1, EvUnlock 1]"
proof -
  let ?s1 = "sim_open (demo_queue 16 []) (demo_queue 16 []) (sim_hw0\<lparr>tx_room := 0\<rparr>)"
  let ?s2 = "sim_open (demo_queue 16 []) (demo_queue 16 []) sim_hw0"
  let ?q = "(demo_queue 8 [1, 0, 0, 0, 2, 0, 0, 0])\<lparr>full := True\<rparr>"
  have h1: "txq (mem ?s1 0) = Some 0 \<and> queues ?s1 0 = Some (demo_queue 16 [])"
    and h2: "txq (mem ?s2 0) = Some 0 \<and> queues ?s2 0 = Some (demo_queue 16 [])"
    by (simp_all add: sim_defs)
  have b1: "send_body (ops (mem ?s1 0)) 0 0 (demo_queue 16 []) 7 (hw ?s1)
      = [EvFifoFull 0 True, EvKfifoIn 0 4, EvTaskletSchedule 0]"
    and b2: "send_body (ops (mem ?s2 0)) 0 0 (demo_queue 16 []) 7 (hw ?s2)
      = [EvFifoFull 0 False, EvFifoWrite 0 7]"
    by (simp_all add: send_body_def poll_spec_type2 kfifo_avail_def kfifo_is_empty_def
        kfifo_len_def sizeof_msg_def sim_defs)
  have h3: "queues demo_rx_pending 1 = Some ?q \<and> q_mbox ?q = Some 0"
    by (simp add: demo_rx_pending_def demo_defs)
  have b3: "rx_work_events 0 1 (notifier (mem demo_rx_pending 0)) (full ?q)
        (queue_msgs (kf_data (fifo ?q)))
      = [EvKfifoOut 1 4, EvNotify 0 5 4 1, EvNotify 0 9 4 1,
         EvLock 1, EvEnableIrq 0 IRQ_RX, EvUnlock 1,
         EvKfifoOut 1 4, EvNotify 0 5 4 2, EvNotify 0 9 4 2, EvLock 1, EvUnlock 1]"
    by (simp add: demo_rx_pending_def demo_defs bytes_msg_def sizeof_msg_def)
  note t1 = C8_lock_scope [where s = ?s1 and m = 0 and tq = 0 and tqq = "demo_queue 16 []"
      and msg = 7]
  note t2 = C8_lock_scope [where s = ?s2 and m = 0 and tq = 0 and tqq = "demo_queue 16 []"
      and msg = 7]
  note t3 = C8_lock_scope [where s = demo_rx_pending and mq = 1 and q = ?q and mb = 0]
  from t1 h1 have 1: "send_events 0 7 ?s1
        = EvLock 0 # send_body (ops (mem ?s1 0)) 0 0 (demo_queue 16 []) 7 (hw ?s1) @ [EvUnlock 0]"
    "under_lock False (send_events 0 7 ?s1)
        = send_body (ops (mem ?s1 0)) 0 0 (demo_queue 16 []) 7 (hw ?s1)"
    by blast+
  from t2 h2 have 2: "send_events 0 7 ?s2
        = EvLock 0 # send_body (ops (mem ?s2 0)) 0 0 (demo_queue 16 []) 7 (hw ?s2) @ [EvUnlock 0]"
    by blast
  from t3 h3 have 3: "work_events 1 demo_rx_pending
      = rx_work_events 0 1 (notifier (mem demo_rx_pending 0)) (full ?q)
          (queue_msgs (kf_data (fifo ?q)))"
    by blast
  show ?thesis
    unfolding 1 2 3 b1 b2 b3 by simp
qed

text \<open>
  Claim C8 as stated fails: a send on the idle example channel polls the hardware and
  writes the hardware FIFO while it holds the transmit queue's lock.
\<close>

theorem C8_counterexample:
  "send_events 0 7 (demo_open (demo_queue 4 []) (demo_queue 4 []))
     = [EvLock 0, EvFifoFull 0 False, EvFifoWrite 0 7, EvUnlock 0] \<and>
   under_lock False (send_events 0 7 (demo_open (demo_queue 4 []) (demo_queue 4 [])))
     = [EvFifoFull 0 False, EvFifoWrite 0 7] \<and>
   \<not> lock_discipline (send_events 0 7 (demo_open (demo_queue 4 []) (demo_queue 4 [])))"
proof -
  have "send_events 0 7 (demo_open (demo_queue 4 []) (demo_queue 4 []))
     = [EvLock 0, EvFifoFull 0 False, EvFifoWrite 0 7, EvUnlock 0]"
    by (simp add: send_events_def omap_mbox_msg_send_def mbox_poll_for_space_def poll_loop.simps
        mbox_fifo_full_def mbox_fifo_write_def spin_lock_def spin_unlock_def emit_def
        queue_at_def kfifo_avail_def kfifo_is_empty_def kfifo_len_def sizeof_msg_def
        new_events_def demo_defs)
  then show ?thesis
    by (simp add: lock_discipline_def)
qed

section \<open>Hardware activation\<close>

text \<open>
  The startup and shutdown callbacks among a list of events, in order. An environment in
  which an open succeeds: both queues are allocated and the interrupt is granted. A channel
  whose startup callback exists and succeeds, and whose shutdown callback exists.
\<close>

fun is_activation :: "event \<Rightarrow> bool" where
  "is_activation (EvStartup m r) = True"
| "is_activation (EvShutdown m) = True"
| "is_activation e = False"

definition activations :: "event list \<Rightarrow> event list" where
  "activations evs = filter is_activation evs"

definition env_ok :: "open_env \<Rightarrow> bool" where
  "env_ok env \<longleftrightarrow>
     kzalloc_ok (txq_env env) \<and> kfifo_alloc_res (txq_env env) \<noteq> None \<and>
     kzalloc_ok (rxq_env env) \<and> kfifo_alloc_res (rxq_env env) \<noteq> None \<and>
     request_irq_ret env = 0"

definition ops_ok :: "'h omap_mbox_ops \<Rightarrow> bool" where
  "ops_ok p \<longleftrightarrow>
     (case startup p of None \<Rightarrow> False | Some f \<Rightarrow> (\<forall>h. fst (f h) = 0)) \<and> shutdown p \<noteq> None"

text \<open>What a step leaves alone and what it adds to the trace.\<close>

definition act_step :: "'h mbox_state \<Rightarrow> 'h mbox_state \<Rightarrow> event list \<Rightarrow> bool" where
  "act_step s s' acts \<longleftrightarrow>
     mboxes s' = mboxes s \<and>
     (\<forall>a. name (mem s' a) = name (mem s a) \<and> ops (mem s' a) = ops (mem s a)) \<and>
     (\<exists>evs. trace s' = trace s @ evs \<and> activations evs = acts)"

lemma startup_queues_first:
  assumes "env_ok env" and "use_count (mem s m) = 0"
  shows "\<exists>s'. startup_queues m env s = (0, s') \<and> act_step s s' [] \<and>
     mbox_configured s' = mbox_configured s \<and>
     use_count (mem s' m) = 1 \<and> txq (mem s' m) = Some (brk s) \<and>
     rxq (mem s' m) = Some (Suc (brk s)) \<and>
     (\<forall>a. a \<noteq> m \<longrightarrow> use_count (mem s' a) = use_count (mem s a) \<and>
        txq (mem s' a) = txq (mem s a) \<and> rxq (mem s' a) = rxq (mem s a)) \<and>
     dom (queues s') = dom (queues s) \<union> {brk s, Suc (brk s)} \<and>
     brk s' = Suc (Suc (brk s))"
proof -
  obtain n1 n2 where e: "kzalloc_ok (txq_env env)" "kfifo_alloc_res (txq_env env) = Some n1"
    "kzalloc_ok (rxq_env env)" "kfifo_alloc_res (rxq_env env) = Some n2" "request_irq_ret env = 0"
    using assms(1) by (auto simp: env_ok_def)
  show ?thesis
    using e assms(2)
    by (auto simp: startup_queues_def mbox_queue_alloc_def mbox_upd_def queue_upd_def queue_at_def
        omap_mbox_enable_irq_def emit_def act_step_def activations_def Let_def)
qed

lemma startup_queues_again:
  assumes "use_count (mem s m) \<noteq> 0"
  shows "\<exists>s'. startup_queues m env s = (0, s') \<and> act_step s s' [] \<and>
     mbox_configured s' = mbox_configured s \<and>
     use_count (mem s' m) = use_count (mem s m) + 1 \<and> txq (mem s' m) = txq (mem s m) \<and>
     rxq (mem s' m) = rxq (mem s m) \<and>
     (\<forall>a. a \<noteq> m \<longrightarrow> use_count (mem s' a) = use_count (mem s a) \<and>
        txq (mem s' a) = txq (mem s a) \<and> rxq (mem s' a) = rxq (mem s a)) \<and>
     queues s' = queues s \<and> brk s' = brk s"
  using assms
  by (auto simp: startup_queues_def mbox_upd_def act_step_def activations_def Let_def)

lemma w32_of_nat_eq_0: "n < 2 ^ 32 \<Longrightarrow> (of_nat n :: cint) = 0 \<longleftrightarrow> n = 0"
  by (auto simp: word_of_nat_eq_0_iff dest: dvd_imp_le)

lemma w32_of_nat_pred: "0 < n \<Longrightarrow> (of_nat n :: cint) - 1 = of_nat (n - 1)"
  by (cases n) simp_all

lemma act_step_refl: "act_step s s []"
  by (simp add: act_step_def activations_def)

lemma act_step_trans: "act_step s s1 xs \<Longrightarrow> act_step s1 s2 ys \<Longrightarrow> act_step s s2 (xs @ ys)"
  unfolding act_step_def
proof (intro conjI)
  assume a: "mboxes s1 = mboxes s \<and>
      (\<forall>a. name (mem s1 a) = name (mem s a) \<and> ops (mem s1 a) = ops (mem s a)) \<and>
      (\<exists>evs. trace s1 = trace s @ evs \<and> activations evs = xs)"
    and b: "mboxes s2 = mboxes s1 \<and>
      (\<forall>a. name (mem s2 a) = name (mem s1 a) \<and> ops (mem s2 a) = ops (mem s1 a)) \<and>
      (\<exists>evs. trace s2 = trace s1 @ evs \<and> activations evs = ys)"
  show "mboxes s2 = mboxes s" using a b by simp
  show "\<forall>a. name (mem s2 a) = name (mem s a) \<and> ops (mem s2 a) = ops (mem s a)"
    using a b by simp
  obtain e1 e2 where "trace s1 = trace s @ e1" "activations e1 = xs"
    "trace s2 = trace s1 @ e2" "activations e2 = ys"
    using a b by blast
  then have "trace s2 = trace s @ (e1 @ e2) \<and> activations (e1 @ e2) = xs @ ys"
    by (simp add: activations_def)
  then show "\<exists>evs. trace s2 = trace s @ evs \<and> activations evs = xs @ ys"
    by blast
qed

text \<open>
  The first half of \<^verbatim>\<open>omap_mbox_startup\<close> on a channel whose startup callback exists and
  succeeds: the PM reference, the counter, and the callback when the counter was 0.
\<close>

lemma startup_first_half:
  assumes "ops_ok (ops (mem s m))"
  shows "\<exists>t. omap_mbox_startup m env s = startup_queues m env t \<and>
     act_step s t (if mbox_configured s = 0 then [EvStartup m 0] else []) \<and>
     mbox_configured t = mbox_configured s + 1 \<and> mem t = mem s \<and> queues t = queues s \<and>
     brk t = brk s"
proof -
  obtain f where f: "startup (ops (mem s m)) = Some f" "\<And>h. fst (f h) = 0"
    using assms by (auto simp: ops_ok_def split: option.splits)
  let ?s1 = "omap_mbox_enable m s"
  let ?s2 = "?s1\<lparr>mbox_configured := mbox_configured ?s1 + 1\<rparr>"
  show ?thesis
  proof (cases "mbox_configured s = 0")
    case False
    then have "omap_mbox_startup m env s = startup_queues m env ?s2"
      by (simp add: omap_mbox_startup_def omap_mbox_enable_def emit_def Let_def)
    moreover have "act_step s ?s2 []"
      by (simp add: act_step_def activations_def omap_mbox_enable_def emit_def)
    ultimately show ?thesis
      using False by (intro exI [of _ ?s2]) (simp add: omap_mbox_enable_def emit_def)
  next
    case True
    obtain h where h: "f (hw ?s2) = (0, h)"
      using f(2) [of "hw ?s2"] by (cases "f (hw ?s2)") simp
    let ?s3 = "emit (EvStartup m 0) (?s2\<lparr>hw := h\<rparr>)"
    have "omap_mbox_startup m env s = startup_queues m env ?s3"
      using True f(1) h
      by (simp add: omap_mbox_startup_def omap_mbox_enable_def emit_def Let_def)
    moreover have "act_step s ?s3 [EvStartup m 0]"
      by (simp add: act_step_def activations_def omap_mbox_enable_def emit_def)
    ultimately show ?thesis
      using True by (intro exI [of _ ?s3]) (simp add: omap_mbox_enable_def emit_def)
  qed
qed

text \<open>
  The channels that are open, each as often as it is open, and the state of the driver:
  the counters count them, the queues of an open channel are live, below the allocation
  pointer and not shared with another channel.
\<close>

definition life_inv :: "nat multiset \<Rightarrow> 'h mbox_state \<Rightarrow> bool" where
  "life_inv M s \<longleftrightarrow>
     mbox_configured s = of_nat (size M) \<and>
     (\<forall>m. use_count (mem s m) = of_nat (count M m)) \<and>
     (\<forall>a \<in> dom (queues s). a < brk s) \<and>
     (\<forall>m. m \<in># M \<longrightarrow>
        (\<exists>tq rq. txq (mem s m) = Some tq \<and> rxq (mem s m) = Some rq \<and>
           tq \<in> dom (queues s) \<and> rq \<in> dom (queues s))) \<and>
     (\<forall>m m'. m \<in># M \<longrightarrow> m' \<in># M \<longrightarrow> m \<noteq> m' \<longrightarrow>
        txq (mem s m) \<noteq> txq (mem s m') \<and> txq (mem s m) \<noteq> rxq (mem s m') \<and>
        rxq (mem s m) \<noteq> rxq (mem s m'))"

lemma startup_step:
  assumes inv: "life_inv M s" and env: "env_ok env" and ops: "ops_ok (ops (mem s m))"
    and bound: "Suc (size M) < 2 ^ 32"
  shows "\<exists>s'. omap_mbox_startup m env s = (0, s') \<and> life_inv (add_mset m M) s' \<and>
     act_step s s' (if M = {#} then [EvStartup m 0] else [])"
proof -
  have c0: "mbox_configured s = 0 \<longleftrightarrow> M = {#}"
    using inv bound by (simp add: life_inv_def w32_of_nat_eq_0)
  have cm: "count M m < 2 ^ 32"
    using bound count_le_size [of M m] by simp
  have u0: "use_count (mem s m) = 0 \<longleftrightarrow> count M m = 0"
    using inv cm by (simp add: life_inv_def w32_of_nat_eq_0)
  obtain t where t: "omap_mbox_startup m env s = startup_queues m env t"
    "act_step s t (if M = {#} then [EvStartup m 0] else [])"
    "mbox_configured t = mbox_configured s + 1" "mem t = mem s" "queues t = queues s"
    "brk t = brk s"
    using startup_first_half [OF ops, of env] unfolding c0 by blast
  show ?thesis
  proof (cases "count M m = 0")
    case True
    then have "use_count (mem t m) = 0"
      using u0 t(4) by simp
    from startup_queues_first [OF env this] obtain s' where
      s': "startup_queues m env t = (0, s')" "act_step t s' []"
      "mbox_configured s' = mbox_configured t"
      "use_count (mem s' m) = 1" "txq (mem s' m) = Some (brk t)" "rxq (mem s' m) = Some (Suc (brk t))"
      "\<forall>a. a \<noteq> m \<longrightarrow> use_count (mem s' a) = use_count (mem t a) \<and>
        txq (mem s' a) = txq (mem t a) \<and> rxq (mem s' a) = rxq (mem t a)"
      "dom (queues s') = dom (queues t) \<union> {brk t, Suc (brk t)}"
      "brk s' = Suc (Suc (brk t))"
      by blast
    have nm: "m \<notin># M"
      using True by (simp add: not_in_iff)
    have old: "\<And>a tq. a \<in># M \<Longrightarrow> txq (mem s a) = Some tq \<Longrightarrow> tq < brk s"
      "\<And>a rq. a \<in># M \<Longrightarrow> rxq (mem s a) = Some rq \<Longrightarrow> rq < brk s"
      using inv unfolding life_inv_def by (metis option.inject)+
    have "life_inv (add_mset m M) s'"
      unfolding life_inv_def
    proof (intro conjI allI impI ballI)
      show "mbox_configured s' = of_nat (size (add_mset m M))"
        using s'(3) t(3) inv by (simp add: life_inv_def)
      show "use_count (mem s' a) = of_nat (count (add_mset m M) a)" for a
        using s'(4,7) t(4) inv True by (cases "a = m") (simp_all add: life_inv_def)
      show "a < brk s'" if "a \<in> dom (queues s')" for a
      proof -
        have "a \<in> dom (queues s) \<or> a = brk s \<or> a = Suc (brk s)"
          using that s'(8) t(5,6) by auto
        moreover have "b < brk s" if "b \<in> dom (queues s)" for b
          using that inv by (simp add: life_inv_def)
        ultimately show ?thesis
          using s'(9) t(6) by (auto simp: less_Suc_eq)
      qed
      show "\<exists>tq rq. txq (mem s' a) = Some tq \<and> rxq (mem s' a) = Some rq \<and>
          tq \<in> dom (queues s') \<and> rq \<in> dom (queues s')" if "a \<in># add_mset m M" for a
      proof (cases "a = m")
        case True
        then show ?thesis using s'(5,6,8) by simp
      next
        case False
        then have "a \<in># M" using that by simp
        then show ?thesis
          using inv False s'(7,8) t(4,5) unfolding life_inv_def by (metis UnI1)
      qed
      fix a a'
      assume aa: "a \<in># add_mset m M" "a' \<in># add_mset m M" "a \<noteq> a'"
      have new: "txq (mem s' m) = Some (brk s)" "rxq (mem s' m) = Some (Suc (brk s))"
        using s'(5,6) t(6) by simp_all
      have keep: "\<And>b. b \<noteq> m \<Longrightarrow> txq (mem s' b) = txq (mem s b) \<and> rxq (mem s' b) = rxq (mem s b)"
        using s'(7) t(4) by simp
      have lt: "\<And>b. b \<in># M \<Longrightarrow> txq (mem s b) \<noteq> Some (brk s) \<and> txq (mem s b) \<noteq> Some (Suc (brk s))
          \<and> rxq (mem s b) \<noteq> Some (brk s) \<and> rxq (mem s b) \<noteq> Some (Suc (brk s))"
        using old by (metis Suc_n_not_le_n less_imp_le_nat less_irrefl_nat not_less_eq)
      show "txq (mem s' a) \<noteq> txq (mem s' a')"
        using aa nm inv new keep lt unfolding life_inv_def
        by (cases "a = m"; cases "a' = m") (auto simp: )
      show "txq (mem s' a) \<noteq> rxq (mem s' a')"
        using aa nm inv new keep lt unfolding life_inv_def
        by (cases "a = m"; cases "a' = m") (auto simp: )
      show "rxq (mem s' a) \<noteq> rxq (mem s' a')"
        using aa nm inv new keep lt unfolding life_inv_def
        by (cases "a = m"; cases "a' = m") (auto simp: )
    qed
    moreover have "act_step s s' (if M = {#} then [EvStartup m 0] else [])"
      using act_step_trans [OF t(2) s'(2)] by simp
    ultimately show ?thesis
      using t(1) s'(1) by simp
  next
    case False
    then have "use_count (mem t m) \<noteq> 0"
      using u0 t(4) by simp
    from startup_queues_again [OF this, of env] obtain s' where
      s': "startup_queues m env t = (0, s')" "act_step t s' []"
      "mbox_configured s' = mbox_configured t"
      "use_count (mem s' m) = use_count (mem t m) + 1" "txq (mem s' m) = txq (mem t m)"
      "rxq (mem s' m) = rxq (mem t m)"
      "\<forall>a. a \<noteq> m \<longrightarrow> use_count (mem s' a) = use_count (mem t a) \<and>
        txq (mem s' a) = txq (mem t a) \<and> rxq (mem s' a) = rxq (mem t a)"
      "queues s' = queues t" "brk s' = brk t"
      by blast
    have ptr: "\<And>a. txq (mem s' a) = txq (mem s a) \<and> rxq (mem s' a) = rxq (mem s a)"
      using s'(5,6,7) t(4) by metis
    have mm: "m \<in># M"
      using False by (simp add: count_greater_zero_iff [symmetric] del: count_greater_zero_iff)
    have "life_inv (add_mset m M) s'"
      unfolding life_inv_def
    proof (intro conjI allI impI ballI)
      show "mbox_configured s' = of_nat (size (add_mset m M))"
        using s'(3) t(3) inv by (simp add: life_inv_def)
      show "use_count (mem s' a) = of_nat (count (add_mset m M) a)" for a
        using s'(4,7) t(4) inv by (cases "a = m") (simp_all add: life_inv_def)
      show "a < brk s'" if "a \<in> dom (queues s')" for a
        using that s'(8,9) t(5,6) inv by (simp add: life_inv_def)
      show "\<exists>tq rq. txq (mem s' a) = Some tq \<and> rxq (mem s' a) = Some rq \<and>
          tq \<in> dom (queues s') \<and> rq \<in> dom (queues s')" if "a \<in># add_mset m M" for a
      proof -
        have "a \<in># M" using that mm by auto
        then show ?thesis
          using inv ptr s'(8) t(5) unfolding life_inv_def by metis
      qed
      fix a a'
      assume "a \<in># add_mset m M" "a' \<in># add_mset m M" "a \<noteq> a'"
      then have aa: "a \<in># M" "a' \<in># M" "a \<noteq> a'"
        using mm by auto
      show "txq (mem s' a) \<noteq> txq (mem s' a')" "txq (mem s' a) \<noteq> rxq (mem s' a')"
        "rxq (mem s' a) \<noteq> rxq (mem s' a')"
        using aa inv ptr unfolding life_inv_def by metis+
    qed
    moreover have "act_step s s' (if M = {#} then [EvStartup m 0] else [])"
      using act_step_trans [OF t(2) s'(2)] by simp
    ultimately show ?thesis
      using t(1) s'(1) by simp
  qed
qed

lemma fini_ok:
  assumes "rxq (mem s m) = Some rq" and "rq \<in> dom (queues s)"
    and "txq (mem s m) = Some tq" and "tq \<in> dom (queues s)"
    and "shutdown (ops (mem s m)) \<noteq> None"
  shows "\<exists>s'. omap_mbox_fini m s = Some s' \<and>
     act_step s s' (if mbox_configured s - 1 = 0 then [EvShutdown m] else []) \<and>
     mbox_configured s' = mbox_configured s - 1 \<and>
     use_count (mem s' m) = use_count (mem s m) - 1 \<and>
     (\<forall>a. txq (mem s' a) = txq (mem s a) \<and> rxq (mem s' a) = rxq (mem s a)) \<and>
     (\<forall>a. a \<noteq> m \<longrightarrow> use_count (mem s' a) = use_count (mem s a)) \<and>
     queues s' = (if use_count (mem s m) - 1 = 0 then (queues s)(tq := None, rq := None)
                  else queues s) \<and>
     brk s' = brk s"
proof -
  obtain g where g: "shutdown (ops (mem s m)) = Some g"
    using assms(5) by blast
  obtain q1 q2 where q: "queues s rq = Some q1" "queues s tq = Some q2"
    using assms(2,4) by blast
  show ?thesis
    using assms(1,3) g q
    by (auto simp: omap_mbox_fini_def fini_shutdown_def mbox_queue_free_def mbox_upd_def
        omap_mbox_disable_def emit_def act_step_def activations_def Let_def)
qed

lemma life_inv_disjoint:
  assumes "life_inv M s" and "a \<in># M" and "a' \<in># M" and "a \<noteq> a'"
  shows "txq (mem s a) \<noteq> txq (mem s a')" and "txq (mem s a) \<noteq> rxq (mem s a')"
    and "rxq (mem s a) \<noteq> txq (mem s a')" and "rxq (mem s a) \<noteq> rxq (mem s a')"
proof -
  have d: "\<And>b b'. b \<in># M \<Longrightarrow> b' \<in># M \<Longrightarrow> b \<noteq> b' \<Longrightarrow>
      txq (mem s b) \<noteq> txq (mem s b') \<and> txq (mem s b) \<noteq> rxq (mem s b') \<and>
      rxq (mem s b) \<noteq> rxq (mem s b')"
    using assms(1) by (simp add: life_inv_def)
  show "txq (mem s a) \<noteq> txq (mem s a')" "txq (mem s a) \<noteq> rxq (mem s a')"
    "rxq (mem s a) \<noteq> rxq (mem s a')"
    using d [OF assms(2,3,4)] by simp_all
  show "rxq (mem s a) \<noteq> txq (mem s a')"
    using d [OF assms(3,2)] assms(4) by (simp add: eq_commute)
qed

lemma life_inv_live:
  assumes "life_inv M s" and "a \<in># M"
  obtains tq rq where "txq (mem s a) = Some tq" "rxq (mem s a) = Some rq"
    "tq \<in> dom (queues s)" "rq \<in> dom (queues s)"
  using assms unfolding life_inv_def by blast

lemma fini_step:
  assumes inv: "life_inv M s" and mm: "m \<in># M"
    and ops: "shutdown (ops (mem s m)) \<noteq> None" and bound: "size M < 2 ^ 32"
  shows "\<exists>s'. omap_mbox_fini m s = Some s' \<and> life_inv (M - {#m#}) s' \<and>
     act_step s s' (if size M = 1 then [EvShutdown m] else [])"
proof -
  obtain tq rq where p: "txq (mem s m) = Some tq" "rxq (mem s m) = Some rq"
    "tq \<in> dom (queues s)" "rq \<in> dom (queues s)"
    using inv mm by (rule life_inv_live)
  have cn: "0 < count M m" "count M m < 2 ^ 32"
    using mm bound count_le_size [of M m] by simp_all
  have sz: "0 < size M"
    using mm by (cases M) auto
  have mc: "mbox_configured s = of_nat (size M)"
    and uc: "\<And>a. use_count (mem s a) = of_nat (count M a)"
    using inv by (simp_all add: life_inv_def)
  have e: "mbox_configured s - 1 = of_nat (size M - 1)"
    unfolding mc by (rule w32_of_nat_pred [OF sz])
  have u: "use_count (mem s m) - 1 = of_nat (count M m - 1)"
    unfolding uc by (rule w32_of_nat_pred [OF cn(1)])
  have c1: "(mbox_configured s - 1 = 0) = (size M = 1)"
  proof -
    have b: "size M - 1 < 2 ^ 32"
      using bound by arith
    have "(mbox_configured s - 1 = 0) = ((of_nat (size M - 1) :: cint) = 0)"
      by (simp only: e)
    also have "\<dots> = (size M - 1 = 0)"
      by (rule w32_of_nat_eq_0 [OF b])
    also have "\<dots> = (size M = 1)"
      using sz by arith
    finally show ?thesis .
  qed
  have u1: "(use_count (mem s m) - 1 = 0) = (count M m = 1)"
  proof -
    have b: "count M m - 1 < 2 ^ 32"
      using cn(2) by arith
    have "(use_count (mem s m) - 1 = 0) = ((of_nat (count M m - 1) :: cint) = 0)"
      by (simp only: u)
    also have "\<dots> = (count M m - 1 = 0)"
      by (rule w32_of_nat_eq_0 [OF b])
    also have "\<dots> = (count M m = 1)"
      using cn(1) by arith
    finally show ?thesis .
  qed
  from fini_ok [OF p(2,4,1,3) ops] obtain s' where
    s'0: "omap_mbox_fini m s = Some s' \<and>
     act_step s s' (if mbox_configured s - 1 = 0 then [EvShutdown m] else []) \<and>
     mbox_configured s' = mbox_configured s - 1 \<and>
     use_count (mem s' m) = use_count (mem s m) - 1 \<and>
     (\<forall>a. txq (mem s' a) = txq (mem s a) \<and> rxq (mem s' a) = rxq (mem s a)) \<and>
     (\<forall>a. a \<noteq> m \<longrightarrow> use_count (mem s' a) = use_count (mem s a)) \<and>
     queues s' = (if use_count (mem s m) - 1 = 0 then (queues s)(tq := None, rq := None)
                  else queues s) \<and>
     brk s' = brk s" ..
  have s': "omap_mbox_fini m s = Some s'"
    "act_step s s' (if size M = 1 then [EvShutdown m] else [])"
    "mbox_configured s' = mbox_configured s - 1"
    "use_count (mem s' m) = use_count (mem s m) - 1"
    "\<And>a. txq (mem s' a) = txq (mem s a)" "\<And>a. rxq (mem s' a) = rxq (mem s a)"
    "\<And>a. a \<noteq> m \<Longrightarrow> use_count (mem s' a) = use_count (mem s a)"
    "queues s' = (if count M m = 1 then (queues s)(tq := None, rq := None) else queues s)"
    "brk s' = brk s"
    using s'0 unfolding c1 u1 by simp_all
  have "life_inv (M - {#m#}) s'"
    unfolding life_inv_def
  proof (intro conjI allI impI ballI)
    show "mbox_configured s' = of_nat (size (M - {#m#}))"
      by (simp only: s'(3) e size_Diff_singleton [OF mm])
    show "use_count (mem s' a) = of_nat (count (M - {#m#}) a)" for a
    proof (cases "a = m")
      case True
      have "count (M - {#m#}) m = count M m - 1"
        by simp
      then show ?thesis
        unfolding True by (simp only: s'(4) u)
    next
      case False
      then have "count (M - {#m#}) a = count M a"
        by simp
      then show ?thesis
        using s'(7) [OF False] by (simp only: uc)
    qed
    show "a < brk s'" if "a \<in> dom (queues s')" for a
    proof -
      have "a \<in> dom (queues s)"
        using that s'(8) by (auto split: if_splits)
      then show ?thesis
        using inv s'(9) by (simp add: life_inv_def)
    qed
    show "\<exists>tq rq. txq (mem s' a) = Some tq \<and> rxq (mem s' a) = Some rq \<and>
        tq \<in> dom (queues s') \<and> rq \<in> dom (queues s')" if "a \<in># M - {#m#}" for a
    proof -
      have am: "a \<in># M"
        using that by (rule in_diffD)
      obtain tq' rq' where p': "txq (mem s a) = Some tq'" "rxq (mem s a) = Some rq'"
        "tq' \<in> dom (queues s)" "rq' \<in> dom (queues s)"
        using inv am by (rule life_inv_live)
      show ?thesis
      proof (cases "count M m = 1")
        case False
        then show ?thesis using p' s'(5,6,8) by simp
      next
        case True
        then have "a \<noteq> m"
          using that by (auto simp: in_diff_count)
        then have "tq' \<noteq> tq" "tq' \<noteq> rq" "rq' \<noteq> tq" "rq' \<noteq> rq"
          using life_inv_disjoint [OF inv am mm] p p' by simp_all
        then show ?thesis
          using p' s'(5,6,8) True by simp
      qed
    qed
    fix a a'
    assume "a \<in># M - {#m#}" "a' \<in># M - {#m#}" "a \<noteq> a'"
    then have aa: "a \<in># M" "a' \<in># M" "a \<noteq> a'"
      by (auto dest: in_diffD)
    show "txq (mem s' a) \<noteq> txq (mem s' a')" "txq (mem s' a) \<noteq> rxq (mem s' a')"
      "rxq (mem s' a) \<noteq> rxq (mem s' a')"
      using life_inv_disjoint [OF inv aa] s'(5,6) by simp_all
  qed
  then show ?thesis
    using s'(1,2) by blast
qed

lemma act_step_events:
  assumes "act_step s s' acts"
  shows "activations (new_events s s') = acts"
proof -
  obtain evs where "trace s' = trace s @ evs" "activations evs = acts"
    using assms unfolding act_step_def by blast
  then show ?thesis
    by (simp add: new_events_def)
qed

lemma life_inv_notifier:
  "life_inv M (mbox_upd m (\<lambda>x. x\<lparr>notifier := f x\<rparr>) s) = life_inv M s"
proof -
  let ?s' = "mbox_upd m (\<lambda>x. x\<lparr>notifier := f x\<rparr>) s"
  have h: "\<And>a. use_count (mem ?s' a) = use_count (mem s a)"
    "\<And>a. txq (mem ?s' a) = txq (mem s a)" "\<And>a. rxq (mem ?s' a) = rxq (mem s a)"
    "queues ?s' = queues s" "brk ?s' = brk s" "mbox_configured ?s' = mbox_configured s"
    by (simp_all add: mbox_upd_def)
  show ?thesis
    unfolding life_inv_def by (simp only: h)
qed

lemma act_step_notifier: "act_step s (mbox_upd m (\<lambda>x. x\<lparr>notifier := f x\<rparr>) s) []"
  by (simp add: act_step_def mbox_upd_def activations_def)

lemma get_step:
  assumes inv: "life_inv M s" and reg: "mboxes s = Some l"
    and f: "find (\<lambda>a. name (mem s a) = nm) l = Some m"
    and env: "env_ok env" and ops: "ops_ok (ops (mem s m))"
    and bound: "Suc (size M) < 2 ^ 32"
  shows "\<exists>s'. omap_mbox_get nm nb env s = (Inr m, s') \<and> life_inv (add_mset m M) s' \<and>
     act_step s s' (if M = {#} then [EvStartup m 0] else [])"
proof -
  obtain s1 where s1: "omap_mbox_startup m env s = (0, s1)" "life_inv (add_mset m M) s1"
    "act_step s s1 (if M = {#} then [EvStartup m 0] else [])"
    using startup_step [OF inv env ops bound] by blast
  show ?thesis
  proof (cases nb)
    case None
    then have "omap_mbox_get nm nb env s = (Inr m, s1)"
      using reg f s1(1) by (simp add: omap_mbox_get_def)
    then show ?thesis
      using s1(2,3) by blast
  next
    case (Some n)
    let ?s' = "blocking_notifier_chain_register m n s1"
    have "omap_mbox_get nm nb env s = (Inr m, ?s')"
      using reg f s1(1) Some by (simp add: omap_mbox_get_def)
    moreover have "life_inv (add_mset m M) ?s'"
      unfolding blocking_notifier_chain_register_def life_inv_notifier by (rule s1(2))
    moreover have "act_step s ?s' (if M = {#} then [EvStartup m 0] else [])"
      using act_step_trans [OF s1(3), of ?s' "[]"]
      unfolding blocking_notifier_chain_register_def by (simp add: act_step_notifier)
    ultimately show ?thesis
      by blast
  qed
qed

lemma put_step:
  assumes inv: "life_inv M s" and mm: "m \<in># M"
    and ops: "shutdown (ops (mem s m)) \<noteq> None" and bound: "size M < 2 ^ 32"
  shows "\<exists>s'. omap_mbox_put m nb s = Some s' \<and> life_inv (M - {#m#}) s' \<and>
     act_step s s' (if size M = 1 then [EvShutdown m] else [])"
proof -
  obtain s1 where s1: "omap_mbox_fini m s = Some s1" "life_inv (M - {#m#}) s1"
    "act_step s s1 (if size M = 1 then [EvShutdown m] else [])"
    using fini_step [OF inv mm ops bound] by blast
  show ?thesis
  proof (cases nb)
    case None
    then have "omap_mbox_put m nb s = Some s1"
      using s1(1) by (simp add: omap_mbox_put_def)
    then show ?thesis
      using s1(2,3) by blast
  next
    case (Some n)
    let ?s' = "blocking_notifier_chain_unregister m n s1"
    have "omap_mbox_put m nb s = Some ?s'"
      using s1(1) Some by (simp add: omap_mbox_put_def)
    moreover have "life_inv (M - {#m#}) ?s'"
      unfolding blocking_notifier_chain_unregister_def life_inv_notifier by (rule s1(2))
    moreover have "act_step s ?s' (if size M = 1 then [EvShutdown m] else [])"
      using act_step_trans [OF s1(3), of ?s' "[]"]
      unfolding blocking_notifier_chain_unregister_def by (simp add: act_step_notifier)
    ultimately show ?thesis
      by blast
  qed
qed

section \<open>Sequences of opens and closes\<close>

text \<open>
  The callers' side of the interface: \<^verbatim>\<open>omap_mbox_get\<close> by name and \<^verbatim>\<open>omap_mbox_put\<close> on the
  handle it returned, each with the notifier block of the caller. \<^verbatim>\<open>mbox_configured_lock\<close>
  serialises the calls, so a concurrent execution is one of their orders. A run stops, with
  \<open>None\<close>, at an open that returns an error and at a close that faults; otherwise it keeps,
  for every call, the channel, the counter \<^verbatim>\<open>mbox_configured\<close> before and after, and the
  startup and shutdown callbacks invoked during the call.
\<close>

datatype call = Open string "nat option" open_env | Close nat "nat option"

record step =
  st_chan :: nat
  counter_before :: cint
  counter_after :: cint
  fired :: "event list"

fun do_call :: "call \<Rightarrow> 'h mbox_state \<Rightarrow> (nat \<times> 'h mbox_state) option" where
  "do_call (Open nm nb env) s =
     (case omap_mbox_get nm nb env s of
        (Inl e, s') \<Rightarrow> None
      | (Inr m, s') \<Rightarrow> Some (m, s'))"
| "do_call (Close m nb) s = map_option (Pair m) (omap_mbox_put m nb s)"

fun run :: "call list \<Rightarrow> 'h mbox_state \<Rightarrow> (step list \<times> 'h mbox_state) option" where
  "run [] s = Some ([], s)"
| "run (c # cs) s =
     (case do_call c s of
        None \<Rightarrow> None
      | Some (m, s1) \<Rightarrow>
          (case run cs s1 of
             None \<Rightarrow> None
           | Some (log, s') \<Rightarrow>
               Some (\<lparr>st_chan = m, counter_before = mbox_configured s,
                      counter_after = mbox_configured s1,
                      fired = activations (new_events s s1)\<rparr> # log, s')))"

text \<open>
  The callbacks of a call follow the counter: startup is invoked, once, when the counter
  goes from 0 to 1, shutdown,
  once, when the counter comes back to 0, and neither otherwise.
\<close>

definition gate_ok :: "step \<Rightarrow> bool" where
  "gate_ok st \<longleftrightarrow>
     fired st =
       (if counter_before st = 0 \<and> counter_after st = 1 then [EvStartup (st_chan st) 0]
        else if counter_after st = 0 then [EvShutdown (st_chan st)]
        else [])"

text \<open>
  The registry lookup of \<^verbatim>\<open>omap_mbox_get\<close>, and the handles that are open after a sequence of
  calls: \<open>None\<close> when a name is not registered or a close has no open to match.
\<close>

definition find_mbox :: "'h mbox_state \<Rightarrow> string \<Rightarrow> nat option" where
  "find_mbox s nm =
     (case mboxes s of None \<Rightarrow> None | Some l \<Rightarrow> find (\<lambda>a. name (mem s a) = nm) l)"

fun track :: "(string \<Rightarrow> nat option) \<Rightarrow> call list \<Rightarrow> nat multiset \<Rightarrow> nat multiset option" where
  "track lk [] M = Some M"
| "track lk (Open nm nb env # cs) M =
     (case lk nm of None \<Rightarrow> None | Some m \<Rightarrow> track lk cs (add_mset m M))"
| "track lk (Close m nb # cs) M = (if m \<in># M then track lk cs (M - {#m#}) else None)"

fun is_open :: "call \<Rightarrow> bool" where
  "is_open (Open nm nb env) = True"
| "is_open (Close m nb) = False"

fun handle :: "(string \<Rightarrow> nat option) \<Rightarrow> call \<Rightarrow> nat" where
  "handle lk (Open nm nb env) = (case lk nm of None \<Rightarrow> 0 | Some m \<Rightarrow> m)"
| "handle lk (Close m nb) = m"

fun call_env_ok :: "call \<Rightarrow> bool" where
  "call_env_ok (Open nm nb env) = env_ok env"
| "call_env_ok (Close m nb) = True"

text \<open>Opens first, closes after them.\<close>

definition opens_then_closes :: "call list \<Rightarrow> bool" where
  "opens_then_closes cs \<longleftrightarrow> cs = filter is_open cs @ filter (\<lambda>c. \<not> is_open c) cs"

text \<open>Nothing is open: the counters are 0 and the queues that exist were allocated.\<close>

definition quiescent :: "'h mbox_state \<Rightarrow> bool" where
  "quiescent s \<longleftrightarrow>
     mbox_configured s = 0 \<and> (\<forall>m. use_count (mem s m) = 0) \<and>
     (\<forall>a \<in> dom (queues s). a < brk s)"

text \<open>The callbacks expected of a sequence of calls that starts with \<open>n\<close> open handles.\<close>

fun expected :: "(string \<Rightarrow> nat option) \<Rightarrow> nat \<Rightarrow> call list \<Rightarrow> event list" where
  "expected lk n [] = []"
| "expected lk n (c # cs) =
     (if is_open c
      then (if n = 0 then [EvStartup (handle lk c) 0] else []) @ expected lk (Suc n) cs
      else (if n = 1 then [EvShutdown (handle lk c)] else []) @ expected lk (n - 1) cs)"

lemma quiescent_life_inv: "quiescent s \<Longrightarrow> life_inv {#} s"
  by (simp add: quiescent_def life_inv_def)

lemma act_step_lookup:
  assumes "act_step s s' acts"
  shows "find_mbox s' = find_mbox s"
proof
  fix nm
  have "mboxes s' = mboxes s" "\<And>a. name (mem s' a) = name (mem s a)"
    using assms by (simp_all add: act_step_def)
  then show "find_mbox s' nm = find_mbox s nm"
    by (simp add: find_mbox_def split: option.splits)
qed

lemma act_step_ops:
  "act_step s s' acts \<Longrightarrow> mboxes s' = mboxes s \<and> ops (mem s' a) = ops (mem s a)"
  by (simp add: act_step_def)

lemma find_in_set: "find P l = Some m \<Longrightarrow> m \<in> set l"
  by (auto simp: find_Some_iff)

lemma w32_of_nat_Suc_eq_1: "Suc n < 2 ^ 32 \<Longrightarrow> (of_nat (Suc n) :: cint) = 1 \<longleftrightarrow> n = 0"
proof -
  assume b: "Suc n < 2 ^ 32"
  have "(of_nat (Suc n) :: cint) - 1 = of_nat n"
    using w32_of_nat_pred [of "Suc n"] by simp
  then have "(of_nat (Suc n) :: cint) = 1 \<longleftrightarrow> (of_nat n :: cint) = 0"
    by (metis diff_self eq_iff_diff_eq_0)
  also have "\<dots> \<longleftrightarrow> n = 0"
    using b by (intro w32_of_nat_eq_0) simp
  finally show ?thesis .
qed

lemma gate_ok_open:
  assumes "counter_before st = of_nat n" and "counter_after st = of_nat (Suc n)"
    and "Suc n < 2 ^ 32" and "st_chan st = m"
    and "fired st = (if n = 0 then [EvStartup m 0] else [])"
  shows "gate_ok st"
proof -
  have a: "(of_nat n :: cint) = 0 \<longleftrightarrow> n = 0"
    using assms(3) by (intro w32_of_nat_eq_0) simp
  have b: "(of_nat (Suc n) :: cint) = 1 \<longleftrightarrow> n = 0"
    using assms(3) by (rule w32_of_nat_Suc_eq_1)
  have c: "(of_nat (Suc n) :: cint) \<noteq> 0"
    using w32_of_nat_eq_0 [OF assms(3)] by simp
  show ?thesis
    unfolding gate_ok_def assms(1,2,4,5) a b using c by simp
qed

lemma gate_ok_close:
  assumes "counter_before st = of_nat n" and "counter_after st = of_nat (n - 1)"
    and "n < 2 ^ 32" and "0 < n" and "st_chan st = m"
    and "fired st = (if n = 1 then [EvShutdown m] else [])"
  shows "gate_ok st"
proof -
  have a: "(of_nat n :: cint) = 0 \<longleftrightarrow> n = 0"
    using assms(3) by (rule w32_of_nat_eq_0)
  have "n - 1 < 2 ^ 32"
    using assms(3) by arith
  then have "(of_nat (n - 1) :: cint) = 0 \<longleftrightarrow> n - 1 = 0"
    by (rule w32_of_nat_eq_0)
  also have "\<dots> \<longleftrightarrow> n = 1"
    using assms(4) by arith
  finally have b: "(of_nat (n - 1) :: cint) = 0 \<longleftrightarrow> n = 1" .
  show ?thesis
    unfolding gate_ok_def assms(1,2,5,6) a b using assms(4) by simp
qed

lemma run_steps:
  assumes "life_inv M s" and "mboxes s = Some l" and "\<forall>m \<in> set l. ops_ok (ops (mem s m))"
    and "set_mset M \<subseteq> set l" and "list_all call_env_ok cs"
    and "track (find_mbox s) cs M = Some F" and "size M + length cs < 2 ^ 32"
  shows "\<exists>log s'. run cs s = Some (log, s') \<and> list_all gate_ok log \<and> life_inv F s' \<and>
     act_step s s' (expected (find_mbox s) (size M) cs)"
  using assms
proof (induction cs arbitrary: M s)
  case Nil
  then show ?case
    by (simp add: act_step_refl)
next
  case (Cons c cs)
  note inv = Cons.prems(1) and reg = Cons.prems(2) and ops = Cons.prems(3)
    and sub = Cons.prems(4) and envs = Cons.prems(5) and tr = Cons.prems(6)
    and bound = Cons.prems(7)
  have mc: "mbox_configured s = of_nat (size M)"
    using inv by (simp add: life_inv_def)
  show ?case
  proof (cases c)
    case (Open nm nb env)
    obtain m where lk: "find_mbox s nm = Some m"
      and tr': "track (find_mbox s) cs (add_mset m M) = Some F"
      using tr Open by (auto split: option.splits)
    have f: "find (\<lambda>a. name (mem s a) = nm) l = Some m"
      using lk reg by (simp add: find_mbox_def)
    have ml: "m \<in> set l"
      using f by (rule find_in_set)
    have env: "env_ok env"
      using envs Open by simp
    have b: "Suc (size M) < 2 ^ 32"
      using bound by simp
    obtain s1 where s1: "omap_mbox_get nm nb env s = (Inr m, s1)"
      "life_inv (add_mset m M) s1" "act_step s s1 (if M = {#} then [EvStartup m 0] else [])"
      using get_step [OF inv reg f env _ b] ops ml by blast
    have lk1: "find_mbox s1 = find_mbox s"
      using s1(3) by (rule act_step_lookup)
    have reg1: "mboxes s1 = Some l"
      using act_step_ops [OF s1(3)] reg by simp
    have ops1: "\<forall>m \<in> set l. ops_ok (ops (mem s1 m))"
      using act_step_ops [OF s1(3)] ops by simp
    have sub1: "set_mset (add_mset m M) \<subseteq> set l"
      using sub ml by simp
    have envs1: "list_all call_env_ok cs"
      using envs by simp
    have b1: "size (add_mset m M) + length cs < 2 ^ 32"
      using bound by simp
    obtain log s' where r: "run cs s1 = Some (log, s')" "list_all gate_ok log"
      "life_inv F s'" "act_step s1 s' (expected (find_mbox s) (Suc (size M)) cs)"
      using Cons.IH [OF s1(2) reg1 ops1 sub1 envs1 _ b1] tr' unfolding lk1 by auto
    define st where "st = \<lparr>st_chan = m, counter_before = mbox_configured s,
      counter_after = mbox_configured s1, fired = activations (new_events s s1)\<rparr>"
    have run: "run (c # cs) s = Some (st # log, s')"
      using s1(1) r(1) Open by (simp add: st_def)
    have mc1: "mbox_configured s1 = of_nat (Suc (size M))"
      using s1(2) by (simp add: life_inv_def)
    have fd: "fired st = (if size M = 0 then [EvStartup m 0] else [])"
      using act_step_events [OF s1(3)] by (simp add: st_def)
    have g: "gate_ok st"
      by (rule gate_ok_open [OF _ _ b _ fd]) (simp_all add: st_def mc mc1)
    have eq: "expected (find_mbox s) (size M) (c # cs) =
        (if M = {#} then [EvStartup m 0] else []) @ expected (find_mbox s) (Suc (size M)) cs"
      using Open lk by (cases "M = {#}") simp_all
    have "act_step s s' (expected (find_mbox s) (size M) (c # cs))"
      unfolding eq using s1(3) r(4) by (rule act_step_trans)
    then show ?thesis
      using run g r(2,3) by simp
  next
    case (Close m nb)
    have mm: "m \<in># M" and tr': "track (find_mbox s) cs (M - {#m#}) = Some F"
      using tr Close by (auto split: if_splits)
    have ml: "m \<in> set l"
      using mm sub by auto
    have sh: "shutdown (ops (mem s m)) \<noteq> None"
      using ops ml by (auto simp: ops_ok_def)
    have b: "size M < 2 ^ 32"
      using bound by simp
    have sz: "0 < size M"
      using mm by (cases M) auto
    obtain s1 where s1: "omap_mbox_put m nb s = Some s1"
      "life_inv (M - {#m#}) s1" "act_step s s1 (if size M = 1 then [EvShutdown m] else [])"
      using put_step [OF inv mm sh b] by blast
    have lk1: "find_mbox s1 = find_mbox s"
      using s1(3) by (rule act_step_lookup)
    have reg1: "mboxes s1 = Some l"
      using act_step_ops [OF s1(3)] reg by simp
    have ops1: "\<forall>m \<in> set l. ops_ok (ops (mem s1 m))"
      using act_step_ops [OF s1(3)] ops by simp
    have sub1: "set_mset (M - {#m#}) \<subseteq> set l"
      using sub by (auto dest: in_diffD)
    have envs1: "list_all call_env_ok cs"
      using envs by simp
    have sz1: "size (M - {#m#}) = size M - 1"
      using mm by (simp add: size_Diff_singleton)
    have b1: "size (M - {#m#}) + length cs < 2 ^ 32"
      unfolding sz1 using bound by simp
    obtain log s' where r: "run cs s1 = Some (log, s')" "list_all gate_ok log"
      "life_inv F s'" "act_step s1 s' (expected (find_mbox s) (size M - 1) cs)"
      using Cons.IH [OF s1(2) reg1 ops1 sub1 envs1 _ b1] tr' unfolding lk1 sz1 by auto
    define st where "st = \<lparr>st_chan = m, counter_before = mbox_configured s,
      counter_after = mbox_configured s1, fired = activations (new_events s s1)\<rparr>"
    have run: "run (c # cs) s = Some (st # log, s')"
      using s1(1) r(1) Close by (simp add: st_def)
    have mc1: "mbox_configured s1 = of_nat (size M - 1)"
      using s1(2) unfolding life_inv_def sz1 by simp
    have fd: "fired st = (if size M = 1 then [EvShutdown m] else [])"
      using act_step_events [OF s1(3)] by (simp add: st_def)
    have g: "gate_ok st"
      by (rule gate_ok_close [OF _ _ b sz _ fd]) (simp_all add: st_def mc mc1)
    have eq: "expected (find_mbox s) (size M) (c # cs) =
        (if size M = 1 then [EvShutdown m] else []) @ expected (find_mbox s) (size M - 1) cs"
      using Close by simp
    have "act_step s s' (expected (find_mbox s) (size M) (c # cs))"
      unfolding eq using s1(3) r(4) by (rule act_step_trans)
    then show ?thesis
      using run g r(2,3) by simp
  qed
qed

lemma expected_opens:
  "list_all is_open cs \<Longrightarrow>
     expected lk n cs = (if n = 0 \<and> cs \<noteq> [] then [EvStartup (handle lk (hd cs)) 0] else [])"
  by (induction cs arbitrary: n) simp_all

lemma expected_closes:
  "list_all (\<lambda>c. \<not> is_open c) cs \<Longrightarrow> cs \<noteq> [] \<Longrightarrow> n = length cs \<Longrightarrow>
     expected lk n cs = [EvShutdown (handle lk (last cs))]"
proof (induction cs arbitrary: n)
  case Nil
  then show ?case by simp
next
  case (Cons c cs)
  show ?case
  proof (cases "cs = []")
    case True
    then show ?thesis using Cons.prems by simp
  next
    case False
    then have "expected lk (length cs) cs = [EvShutdown (handle lk (last cs))]"
      using Cons.IH [of "length cs"] Cons.prems(1) by simp
    then show ?thesis
      using Cons.prems False by simp
  qed
qed

lemma expected_append:
  "list_all is_open xs \<Longrightarrow>
     expected lk n (xs @ ys) = expected lk n xs @ expected lk (n + length xs) ys"
  by (induction xs arbitrary: n) simp_all

lemma track_opens:
  "list_all is_open xs \<Longrightarrow> track lk (xs @ ys) M = Some F \<Longrightarrow>
     \<exists>M'. size M' = size M + length xs \<and> track lk ys M' = Some F"
proof (induction xs arbitrary: M)
  case Nil
  then show ?case by auto
next
  case (Cons c xs)
  obtain nm nb env where c: "c = Open nm nb env"
    using Cons.prems(1) by (cases c) simp_all
  obtain m where "track lk (xs @ ys) (add_mset m M) = Some F"
    using Cons.prems(2) c by (auto split: option.splits)
  then obtain M' where "size M' = size (add_mset m M) + length xs" "track lk ys M' = Some F"
    using Cons.IH [of "add_mset m M"] Cons.prems(1) by auto
  then show ?case
    by auto
qed

lemma track_closes:
  "list_all (\<lambda>c. \<not> is_open c) ys \<Longrightarrow> track lk ys M = Some F \<Longrightarrow>
     size M = size F + length ys"
proof (induction ys arbitrary: M)
  case Nil
  then show ?case by simp
next
  case (Cons c ys)
  obtain m nb where c: "c = Close m nb"
    using Cons.prems(1) by (cases c) simp_all
  have mm: "m \<in># M" and tr: "track lk ys (M - {#m#}) = Some F"
    using Cons.prems(2) c by (auto split: if_splits)
  have "size (M - {#m#}) = size F + length ys"
    using Cons.IH [OF _ tr] Cons.prems(1) by simp
  moreover have "size (M - {#m#}) = size M - 1" "0 < size M"
    using mm by (simp_all add: size_Diff_singleton) (cases M, auto)
  ultimately show ?case
    by simp
qed

lemma expected_opens_closes:
  assumes oc: "opens_then_closes cs" and ne: "cs \<noteq> []"
    and tr: "track lk cs {#} = Some {#}"
  shows "expected lk 0 cs = [EvStartup (handle lk (hd cs)) 0, EvShutdown (handle lk (last cs))]"
proof -
  define xs where "xs = filter is_open cs"
  define ys where "ys = filter (\<lambda>c. \<not> is_open c) cs"
  have cs: "cs = xs @ ys"
    using oc by (simp add: opens_then_closes_def xs_def ys_def)
  have ox: "list_all is_open xs" and cy: "list_all (\<lambda>c. \<not> is_open c) ys"
    by (simp_all add: xs_def ys_def list_all_iff)
  obtain M' where M': "size M' = length xs" "track lk ys M' = Some {#}"
    using track_opens [OF ox, of lk ys "{#}" "{#}"] tr cs by auto
  have len: "length xs = length ys"
    using track_closes [OF cy M'(2)] M'(1) by simp
  have xne: "xs \<noteq> []" and yne: "ys \<noteq> []"
    using len ne cs by auto
  have "expected lk 0 cs = expected lk 0 xs @ expected lk (length xs) ys"
    unfolding cs using expected_append [OF ox, of lk 0 ys] by simp
  also have "expected lk 0 xs = [EvStartup (handle lk (hd xs)) 0]"
    using expected_opens [OF ox, of lk 0] xne by simp
  also have "expected lk (length xs) ys = [EvShutdown (handle lk (last ys))]"
    using expected_closes [OF cy yne len] .
  finally show ?thesis
    using xne yne by (simp add: cs)
qed

text \<open>
  Two registered channels on one link, nothing open, and a sequence of calls on them: three
  opens, one of them with a notifier block, then the three closes in another order.
\<close>

definition demo_link :: "mbox_msg_t list mbox_state" where
  "demo_link =
     demo_init\<lparr>mboxes := Some [0, 1],
       mem := (\<lambda>a. if a = 0 then demo_mbox else demo_mbox\<lparr>name := ''mailbox-2''\<rparr>)\<rparr>"

definition demo_calls :: "call list" where
  "demo_calls =
     [Open ''mailbox-1'' None demo_env, Open ''mailbox-2'' (Some 7) demo_env,
      Open ''mailbox-1'' None demo_env,
      Close 1 (Some 7), Close 0 None, Close 0 None]"

text \<open>
  When every open succeeds the callbacks follow the counter. From a state in which nothing
  is open, on
  channels whose startup callback exists and succeeds and whose shutdown callback exists,
  in environments that grant the queues and the interrupt: every sequence of fewer than
  \<open>2^32\<close> opens and closes in which each close has an open of the same channel before it,
  runs to its end; in every call the startup callback is invoked exactly when
  \<^verbatim>\<open>mbox_configured\<close> goes from 0 to 1 and the shutdown callback exactly when it comes back
  to 0; and when the sequence is some opens followed by closes that match them all, the
  callbacks invoked over the whole run are one startup, in the first open, and one shutdown,
  in the last close.
\<close>

lemma gate_when_opens_succeed:
  assumes "quiescent s" and "mboxes s = Some l"
    and "list_all (\<lambda>m. ops_ok (ops (mem s m))) l" and "list_all call_env_ok cs"
    and "track (find_mbox s) cs {#} = Some F" and "length cs < 2 ^ 32"
  shows "\<exists>log s'. run cs s = Some (log, s') \<and> list_all gate_ok log \<and>
     (opens_then_closes cs \<and> cs \<noteq> [] \<and> F = {#} \<longrightarrow>
        activations (new_events s s') =
          [EvStartup (handle (find_mbox s) (hd cs)) 0,
           EvShutdown (handle (find_mbox s) (last cs))])"
proof -
  have inv: "life_inv {#} s"
    using assms(1) by (rule quiescent_life_inv)
  have ops: "\<forall>m \<in> set l. ops_ok (ops (mem s m))"
    using assms(3) by (simp add: list_all_iff)
  have b: "size ({#} :: nat multiset) + length cs < 2 ^ 32"
    using assms(6) by simp
  obtain log s' where r: "run cs s = Some (log, s')" "list_all gate_ok log"
    "act_step s s' (expected (find_mbox s) 0 cs)"
    using run_steps [OF inv assms(2) ops _ assms(4,5) b] by auto
  have e: "activations (new_events s s') = expected (find_mbox s) 0 cs"
    using r(3) by (rule act_step_events)
  have "activations (new_events s s') =
      [EvStartup (handle (find_mbox s) (hd cs)) 0, EvShutdown (handle (find_mbox s) (last cs))]"
    if "opens_then_closes cs" "cs \<noteq> []" "F = {#}"
    unfolding e using that assms(5) by (intro expected_opens_closes) simp_all
  then show ?thesis
    using r(1,2) by blast
qed

lemma gate_when_opens_succeed_example:
  "\<exists>log s'. run demo_calls demo_link = Some (log, s') \<and> list_all gate_ok log \<and>
     activations (new_events demo_link s') = [EvStartup 0 0, EvShutdown 0]"
  using gate_when_opens_succeed [of demo_link "[0, 1]" demo_calls "{#}"]
  by (simp add: demo_link_def demo_calls_def demo_defs quiescent_def ops_ok_def env_ok_def
      find_mbox_def opens_then_closes_def)

section \<open>Failed opens and the activation counter\<close>

text \<open>
  An environment in which \<^verbatim>\<open>kzalloc\<close> fails for the transmit queue. The states of two runs
  on the observable platform. In both the channel 0 is opened first. In the one it is closed
  at once (\<open>sim_shut\<close>). In the other an open of the channel 1 fails on the allocation of
  its transmit queue; then the channel 0 is closed; then the channel 0 is opened again.
\<close>

definition nomem_env :: open_env where
  "nomem_env = demo_env\<lparr>txq_env := \<lparr>kzalloc_ok = False, kfifo_alloc_res = None\<rparr>\<rparr>"

definition sim_opened :: "sim_hw mbox_state" where
  "sim_opened = snd (omap_mbox_get ''mailbox-1'' None demo_env sim_init)"

definition sim_shut :: "sim_hw mbox_state" where
  "sim_shut = (case omap_mbox_put 0 None sim_opened of None \<Rightarrow> sim_opened | Some t \<Rightarrow> t)"

definition sim_failed :: "sim_hw mbox_state" where
  "sim_failed = snd (omap_mbox_get ''mailbox-2'' None nomem_env sim_opened)"

definition sim_closed :: "sim_hw mbox_state" where
  "sim_closed = (case omap_mbox_put 0 None sim_failed of None \<Rightarrow> sim_failed | Some t \<Rightarrow> t)"

definition sim_reopened :: "sim_hw mbox_state" where
  "sim_reopened = snd (omap_mbox_get ''mailbox-1'' None demo_env sim_closed)"

lemmas life_defs =
  omap_mbox_get_def omap_mbox_put_def omap_mbox_startup_def startup_queues_def
  omap_mbox_fini_def fini_shutdown_def fail_startup_def fail_alloc_txq_def fail_alloc_rxq_def
  fail_request_irq_def mbox_queue_alloc_def mbox_queue_free_def omap_mbox_enable_def
  omap_mbox_disable_def omap_mbox_enable_irq_def mbox_upd_def queue_upd_def queue_at_def
  emit_def Let_def

lemma sim_opened_eq:
  "omap_mbox_get ''mailbox-1'' None demo_env sim_init = (Inr 0, sim_opened)"
  "mbox_configured sim_opened = 1"
  "hw sim_opened = sim_hw0\<lparr>oplog := [OpStartup 0, OpEnable 0 IRQ_RX]\<rparr>"
  "trace sim_opened = [EvPmGet, EvStartup 0 0, EvRequestIrq 0 0, EvEnableIrq 0 IRQ_RX]"
  "use_count (mem sim_opened 0) = 1" "use_count (mem sim_opened 1) = 0"
  by (simp_all add: sim_opened_def life_defs sim_defs)

lemma sim_shut_eq:
  "omap_mbox_put 0 None sim_opened = Some sim_shut"
  "mbox_configured sim_shut = 0"
  "hw sim_shut = sim_hw0\<lparr>oplog := [OpStartup 0, OpEnable 0 IRQ_RX, OpShutdown 0]\<rparr>"
  "trace sim_shut
     = trace sim_opened @ [EvFlushWork 1, EvFreeIrq 0, EvTaskletKill 0, EvShutdown 0, EvPmPut]"
  "use_count (mem sim_shut 0) = 0"
  by (simp_all add: sim_shut_def sim_opened_def life_defs sim_defs)

lemma sim_failed_eq:
  "omap_mbox_get ''mailbox-2'' None nomem_env sim_opened = (Inl (- ENODEV), sim_failed)"
  "mbox_configured sim_failed = 2"
  "hw sim_failed = sim_hw0\<lparr>oplog := [OpStartup 0, OpEnable 0 IRQ_RX, OpShutdown 1]\<rparr>"
  "trace sim_failed = trace sim_opened @ [EvPmGet, EvShutdown 1, EvPmPut]"
  "use_count (mem sim_failed 0) = 1" "use_count (mem sim_failed 1) = 0"
  by (simp_all add: sim_failed_def sim_opened_def nomem_env_def life_defs sim_defs ENOMEM_def)

lemma sim_closed_eq:
  "omap_mbox_put 0 None sim_failed = Some sim_closed"
  "mbox_configured sim_closed = 1"
  "hw sim_closed = hw sim_failed"
  "trace sim_closed = trace sim_failed @ [EvFlushWork 1, EvFreeIrq 0, EvTaskletKill 0, EvPmPut]"
  "use_count (mem sim_closed 0) = 0" "use_count (mem sim_closed 1) = 0"
  by (simp_all add: sim_closed_def sim_failed_def sim_opened_def nomem_env_def life_defs sim_defs
      ENOMEM_def)

lemma sim_reopened_eq:
  "omap_mbox_get ''mailbox-1'' None demo_env sim_closed = (Inr 0, sim_reopened)"
  "mbox_configured sim_reopened = 2"
  "hw sim_reopened
     = sim_hw0\<lparr>oplog := [OpStartup 0, OpEnable 0 IRQ_RX, OpShutdown 1, OpEnable 0 IRQ_RX]\<rparr>"
  "trace sim_reopened = trace sim_closed @ [EvPmGet, EvRequestIrq 0 0, EvEnableIrq 0 IRQ_RX]"
  by (simp_all add: sim_reopened_def sim_closed_def sim_failed_def sim_opened_def nomem_env_def
      life_defs sim_defs ENOMEM_def)

text \<open>
  The same platform without a shutdown callback: the channel 0 is opened, closed and
  opened again.
\<close>

definition sim_noshut :: "sim_hw mbox_state" where
  "sim_noshut = sim_init\<lparr>mem := (\<lambda>a. (sim_mbox a)\<lparr>ops := (sim_ops a)\<lparr>shutdown := None\<rparr>\<rparr>)\<rparr>"

definition sim_noshut_opened :: "sim_hw mbox_state" where
  "sim_noshut_opened = snd (omap_mbox_get ''mailbox-1'' None demo_env sim_noshut)"

definition sim_noshut_closed :: "sim_hw mbox_state" where
  "sim_noshut_closed =
     (case omap_mbox_put 0 None sim_noshut_opened of None \<Rightarrow> sim_noshut_opened | Some t \<Rightarrow> t)"

definition sim_noshut_reopened :: "sim_hw mbox_state" where
  "sim_noshut_reopened = snd (omap_mbox_get ''mailbox-1'' None demo_env sim_noshut_closed)"

lemma sim_noshut_eq:
  "omap_mbox_get ''mailbox-1'' None demo_env sim_noshut = (Inr 0, sim_noshut_opened)"
  "mbox_configured sim_noshut_opened = 1"
  "trace sim_noshut_opened = [EvPmGet, EvStartup 0 0, EvRequestIrq 0 0, EvEnableIrq 0 IRQ_RX]"
  "omap_mbox_put 0 None sim_noshut_opened = Some sim_noshut_closed"
  "mbox_configured sim_noshut_closed = 1"
  "use_count (mem sim_noshut_closed 0) = 0"
  "trace sim_noshut_closed
     = trace sim_noshut_opened @ [EvFlushWork 1, EvFreeIrq 0, EvTaskletKill 0, EvPmPut]"
  "omap_mbox_get ''mailbox-1'' None demo_env sim_noshut_closed = (Inr 0, sim_noshut_reopened)"
  "mbox_configured sim_noshut_reopened = 2"
  "trace sim_noshut_reopened
     = trace sim_noshut_closed @ [EvPmGet, EvRequestIrq 0 0, EvEnableIrq 0 IRQ_RX]"
  "hw sim_noshut_reopened = sim_hw0\<lparr>oplog := [OpStartup 0, OpEnable 0 IRQ_RX, OpEnable 0 IRQ_RX]\<rparr>"
  by (simp_all add: sim_noshut_reopened_def sim_noshut_closed_def sim_noshut_opened_def
      sim_noshut_def life_defs sim_defs)

text \<open>
  Claim C1 fails on the code once an open fails. An open followed by its close behaves as
  claimed: the startup callback is invoked as \<^verbatim>\<open>mbox_configured\<close> goes from 0 to 1 and the
  shutdown callback as it comes back to 0. But with the channel 0 open
  (\<^verbatim>\<open>mbox_configured\<close> is 1), an open of the channel 1 whose transmit queue cannot be
  allocated invokes the shutdown callback while the counter goes from 1 to 2, and returns
  \<^verbatim>\<open>ERR_PTR(-ENODEV)\<close> with the counter left at 2: the hardware is shut down under the open
  channel 0. The matching close of the channel 0 then takes the counter to 1, not 0, and
  invokes no shutdown; and the next open, with nothing open, takes it from 1 to 2 and does
  not invoke the startup callback, so the channel runs on hardware that was shut down.
  Likewise, on channels without a shutdown callback a close does not decrement the counter:
  after an open and its close the counter is 1, and the next open invokes no startup.
\<close>

theorem C1_failed_open_breaks_gate:
  "omap_mbox_get ''mailbox-1'' None demo_env sim_init = (Inr 0, sim_opened) \<and>
   mbox_configured sim_init = 0 \<and> mbox_configured sim_opened = 1 \<and>
   new_events sim_init sim_opened
     = [EvPmGet, EvStartup 0 0, EvRequestIrq 0 0, EvEnableIrq 0 IRQ_RX] \<and>
   hw sim_opened = sim_hw0\<lparr>oplog := [OpStartup 0, OpEnable 0 IRQ_RX]\<rparr> \<and>
   omap_mbox_put 0 None sim_opened = Some sim_shut \<and>
   mbox_configured sim_shut = 0 \<and>
   new_events sim_opened sim_shut
     = [EvFlushWork 1, EvFreeIrq 0, EvTaskletKill 0, EvShutdown 0, EvPmPut] \<and>
   hw sim_shut = sim_hw0\<lparr>oplog := [OpStartup 0, OpEnable 0 IRQ_RX, OpShutdown 0]\<rparr> \<and>
   omap_mbox_get ''mailbox-2'' None nomem_env sim_opened = (Inl (- ENODEV), sim_failed) \<and>
   mbox_configured sim_failed = 2 \<and>
   new_events sim_opened sim_failed = [EvPmGet, EvShutdown 1, EvPmPut] \<and>
   hw sim_failed = sim_hw0\<lparr>oplog := [OpStartup 0, OpEnable 0 IRQ_RX, OpShutdown 1]\<rparr> \<and>
   use_count (mem sim_failed 0) = 1 \<and> use_count (mem sim_failed 1) = 0 \<and>
   omap_mbox_put 0 None sim_failed = Some sim_closed \<and>
   mbox_configured sim_closed = 1 \<and>
   new_events sim_failed sim_closed = [EvFlushWork 1, EvFreeIrq 0, EvTaskletKill 0, EvPmPut] \<and>
   hw sim_closed = hw sim_failed \<and>
   use_count (mem sim_closed 0) = 0 \<and> use_count (mem sim_closed 1) = 0 \<and>
   omap_mbox_get ''mailbox-1'' None demo_env sim_closed = (Inr 0, sim_reopened) \<and>
   mbox_configured sim_reopened = 2 \<and>
   new_events sim_closed sim_reopened = [EvPmGet, EvRequestIrq 0 0, EvEnableIrq 0 IRQ_RX] \<and>
   hw sim_reopened
     = sim_hw0\<lparr>oplog := [OpStartup 0, OpEnable 0 IRQ_RX, OpShutdown 1, OpEnable 0 IRQ_RX]\<rparr> \<and>
   omap_mbox_get ''mailbox-1'' None demo_env sim_noshut = (Inr 0, sim_noshut_opened) \<and>
   omap_mbox_put 0 None sim_noshut_opened = Some sim_noshut_closed \<and>
   use_count (mem sim_noshut_closed 0) = 0 \<and> mbox_configured sim_noshut_closed = 1 \<and>
   omap_mbox_get ''mailbox-1'' None demo_env sim_noshut_closed = (Inr 0, sim_noshut_reopened) \<and>
   mbox_configured sim_noshut_reopened = 2 \<and>
   new_events sim_noshut_closed sim_noshut_reopened
     = [EvPmGet, EvRequestIrq 0 0, EvEnableIrq 0 IRQ_RX]"
proof -
  have "mbox_configured sim_init = 0" "trace sim_init = []"
    by (simp_all add: sim_defs)
  then show ?thesis
    using sim_opened_eq sim_shut_eq sim_failed_eq sim_closed_eq sim_reopened_eq sim_noshut_eq
    by (simp add: new_events_def)
qed

end
